theory Spec2Isabelle
  imports Main "HOL-Library.Word"
begin

unbundle bit_operations_syntax

section \<open>Data model of \<open>ass_jni.c\<close>\<close>

text \<open>
  The compositing core of \<open>ass_jni.c\<close>: \<open>blend_ass_image\<close>, \<open>compute_bounding_box\<close>
  and the row-wise crop copy at the end of \<open>nativeRenderFrame\<close>.

  C's \<open>uint8_t\<close> and \<open>uint32_t\<close> are \<open>8 word\<close> and \<open>32 word\<close>; their arithmetic
  wraps and a narrowing cast is \<open>ucast\<close>. C's \<open>int\<close> (coordinates, sizes, loop
  counters) is \<open>int\<close>. The two sums of \<open>compute_bounding_box\<close>, which can leave the
  32 bits of \<open>int\<close> on fields that are in range and whose value is used as it is, are
  written with the wrap-around of the compiled code (\<open>int32\<close>); elsewhere the
  definitions describe the executions without signed overflow, which is undefined in
  C. A pointer into a buffer is the buffer (a list) and an offset; an access outside
  the buffer, undefined in C, is a \<open>fault\<close>.
\<close>

type_synonym u8 = "8 word"
type_synonym u32 = "32 word"

text \<open>The fields of libass's \<open>ASS_Image\<close> that the code reads; the \<open>next\<close> link makes
  a fragment sequence an \<open>ASS_Image list\<close>.\<close>

record ASS_Image =
  w :: int
  h :: int
  stride :: int
  bitmap :: "u8 list"
  color :: u32
  dst_x :: int
  dst_y :: int

datatype fault = Bitmap_Fault | Canvas_Fault | Copy_Fault

text \<open>A \<open>for\<close> loop whose body may fault: the body runs once per element, in order, and
  the first fault ends the loop.\<close>

primrec fold_result :: "('a \<Rightarrow> 's \<Rightarrow> fault + 's) \<Rightarrow> 'a list \<Rightarrow> 's \<Rightarrow> fault + 's" where
  "fold_result f [] s = Inr s"
| "fold_result f (x # xs) s =
     (case f x s of Inl e \<Rightarrow> Inl e | Inr s' \<Rightarrow> fold_result f xs s')"

section \<open>\<open>blend_ass_image\<close>\<close>

text \<open>\<open>src_row[x]\<close> with \<open>src_row = img->bitmap + y * img->stride\<close>: a read of the bitmap at
  offset \<open>i = y * stride + x\<close>.\<close>

definition load_bitmap :: "u8 list \<Rightarrow> int \<Rightarrow> fault + u8" where
  "load_bitmap bm i =
     (if 0 \<le> i \<and> i < int (length bm) then Inr (bm ! nat i) else Inl Bitmap_Fault)"

text \<open>\<open>dst_row[dst_x]\<close> with \<open>dst_row = pixels + dst_y * canvas_w\<close>: the canvas cell at
  column \<open>cx\<close>, row \<open>cy\<close>. It is a cell of the canvas when the coordinates lie in
  \<open>[0, canvas_w) \<times> [0, canvas_h)\<close> and the offset lies in the buffer; anything else is a
  fault.\<close>

definition canvas_index :: "u32 list \<Rightarrow> int \<Rightarrow> int \<Rightarrow> int \<Rightarrow> int \<Rightarrow> fault + nat" where
  "canvas_index pixels canvas_w canvas_h cx cy =
     (if 0 \<le> cx \<and> cx < canvas_w \<and> 0 \<le> cy \<and> cy < canvas_h
         \<and> 0 \<le> cy * canvas_w + cx \<and> cy * canvas_w + cx < int (length pixels)
      then Inr (nat (cy * canvas_w + cx)) else Inl Canvas_Fault)"

text \<open>\<open>final_alpha = (uint32_t)bitmap_alpha * (255 - a) / 255\<close>.\<close>

definition final_alpha :: "u8 \<Rightarrow> u8 \<Rightarrow> u32" where
  "final_alpha bitmap_alpha a = ucast bitmap_alpha * (255 - ucast a) div 255"

text \<open>The four channels of an \<open>0xAARRGGBB\<close> pixel, as the code extracts them.\<close>

definition px_a :: "u32 \<Rightarrow> u8" where "px_a p = ucast (drop_bit 24 p AND 0xFF)"
definition px_r :: "u32 \<Rightarrow> u8" where "px_r p = ucast (drop_bit 16 p AND 0xFF)"
definition px_g :: "u32 \<Rightarrow> u8" where "px_g p = ucast (drop_bit 8 p AND 0xFF)"
definition px_b :: "u32 \<Rightarrow> u8" where "px_b p = ucast (drop_bit 0 p AND 0xFF)"

definition pack_argb :: "u8 \<Rightarrow> u8 \<Rightarrow> u8 \<Rightarrow> u8 \<Rightarrow> u32" where
  "pack_argb out_a out_r out_g out_b =
     push_bit 24 (ucast out_a) OR push_bit 16 (ucast out_r)
       OR push_bit 8 (ucast out_g) OR ucast out_b"

text \<open>\<open>out_a = (uint8_t)(final_alpha + dst_a * inv_alpha / 255)\<close>, computed in
  \<open>uint32_t\<close> and narrowed.\<close>

definition out_alpha :: "u32 \<Rightarrow> u8 \<Rightarrow> u8" where
  "out_alpha fa dst_a = ucast (fa + ucast dst_a * (255 - fa) div 255)"

text \<open>\<open>(uint8_t)((c * final_alpha + dst_c * dst_a * inv_alpha / 255) / out_a)\<close>, or 0
  when \<open>out_a\<close> is 0.\<close>

definition out_channel :: "u8 \<Rightarrow> u32 \<Rightarrow> u8 \<Rightarrow> u8 \<Rightarrow> u8 \<Rightarrow> u8" where
  "out_channel c fa dst_c dst_a out_a =
     (if out_a = 0 then 0
      else ucast ((ucast c * fa + ucast dst_c * ucast dst_a * (255 - fa) div 255)
                    div ucast out_a))"

text \<open>Lines 98 to 120: the new value of a destination pixel, from the tint \<open>r, g, b\<close>,
  the nonzero \<open>final_alpha\<close> and the old pixel.\<close>

definition blend_pixel :: "u8 \<Rightarrow> u8 \<Rightarrow> u8 \<Rightarrow> u32 \<Rightarrow> u32 \<Rightarrow> u32" where
  "blend_pixel r g b fa dst_pixel =
     (let dst_a = px_a dst_pixel; dst_r = px_r dst_pixel;
          dst_g = px_g dst_pixel; dst_b = px_b dst_pixel;
          out_a = out_alpha fa dst_a
      in pack_argb out_a (out_channel r fa dst_r dst_a out_a)
           (out_channel g fa dst_g dst_a out_a) (out_channel b fa dst_b dst_a out_a))"

text \<open>The tint of a fragment, decoded at the top of the fragment loop: \<open>r\<close>, \<open>g\<close>,
  \<open>b\<close> from the three high bytes of \<open>color\<close>, the inverted alpha \<open>a\<close> from the low one.\<close>

definition img_r :: "ASS_Image \<Rightarrow> u8" where
  "img_r img = ucast ((drop_bit 24 (color img)) AND 0xFF)"
definition img_g :: "ASS_Image \<Rightarrow> u8" where
  "img_g img = ucast ((drop_bit 16 (color img)) AND 0xFF)"
definition img_b :: "ASS_Image \<Rightarrow> u8" where
  "img_b img = ucast ((drop_bit 8 (color img)) AND 0xFF)"
definition img_a :: "ASS_Image \<Rightarrow> u8" where
  "img_a img = ucast ((drop_bit 0 (color img)) AND 0xFF)"

text \<open>The body of the column loop, for bitmap row \<open>y\<close> and bitmap column \<open>x\<close>. The
  source's locals \<open>dst_x\<close> and \<open>dst_y\<close>, the canvas column and row of the pixel, are
  \<open>cx\<close> and \<open>cy\<close> here, their names being those of the fragment's fields.\<close>

definition blend_col ::
  "int \<Rightarrow> int \<Rightarrow> ASS_Image \<Rightarrow> int \<Rightarrow> int \<Rightarrow> int \<Rightarrow> u32 list \<Rightarrow> fault + u32 list" where
  "blend_col canvas_w canvas_h img y cy x pixels =
     (let cx = dst_x img + x in
      if cx < 0 \<or> cx \<ge> canvas_w then Inr pixels
      else case load_bitmap (bitmap img) (y * stride img + x) of
        Inl e \<Rightarrow> Inl e
      | Inr bitmap_alpha \<Rightarrow>
          if bitmap_alpha = 0 then Inr pixels
          else let fa = final_alpha bitmap_alpha (img_a img) in
            if fa = 0 then Inr pixels
            else case canvas_index pixels canvas_w canvas_h cx cy of
              Inl e \<Rightarrow> Inl e
            | Inr i \<Rightarrow>
                Inr (list_update pixels i
                       (blend_pixel (img_r img) (img_g img) (img_b img) fa (pixels ! i))))"

text \<open>The body of the row loop.\<close>

definition blend_row ::
  "int \<Rightarrow> int \<Rightarrow> ASS_Image \<Rightarrow> int \<Rightarrow> u32 list \<Rightarrow> fault + u32 list" where
  "blend_row canvas_w canvas_h img y pixels =
     (let cy = dst_y img + y in
      if cy < 0 \<or> cy \<ge> canvas_h then Inr pixels
      else fold_result (blend_col canvas_w canvas_h img y cy) [0 .. w img - 1] pixels)"

text \<open>One fragment: \<open>for (int y = 0; y < img->h; y++)\<close>.\<close>

definition blend_image ::
  "int \<Rightarrow> int \<Rightarrow> ASS_Image \<Rightarrow> u32 list \<Rightarrow> fault + u32 list" where
  "blend_image canvas_w canvas_h img pixels =
     fold_result (blend_row canvas_w canvas_h img) [0 .. h img - 1] pixels"

text \<open>The whole list: \<open>for (img = img_list; img != NULL; img = img->next)\<close>.\<close>

definition blend_ass_image ::
  "u32 list \<Rightarrow> int \<Rightarrow> int \<Rightarrow> ASS_Image list \<Rightarrow> fault + u32 list" where
  "blend_ass_image pixels canvas_w canvas_h img_list =
     fold_result (blend_image canvas_w canvas_h) img_list pixels"

section \<open>\<open>compute_bounding_box\<close>\<close>

text \<open>The four out-parameters.\<close>

record bounding_box =
  out_left :: int
  out_top :: int
  out_right :: int
  out_bottom :: int

text \<open>C's \<open>int\<close> has 32 bits. The sums \<open>img->dst_x + img->w\<close> and
  \<open>img->dst_y + img->h\<close> of lines 141 and 142 can leave that range on fields that are
  in it (\<open>dst_x = 1\<close>, \<open>w = 2147483647\<close>); the compiled code keeps the low 32 bits of
  the sum, read as two's complement. \<open>int32 z\<close> is that value, and \<open>in_int32 z\<close> says
  that \<open>z\<close> is in the range, where the two agree.\<close>

definition int32 :: "int \<Rightarrow> int" where
  "int32 z = (z + 2 ^ 31) mod 2 ^ 32 - 2 ^ 31"

definition in_int32 :: "int \<Rightarrow> bool" where
  "in_int32 z = (- (2 ^ 31) \<le> z \<and> z < 2 ^ 31)"

text \<open>The loop body, on the running \<open>(left, top, right, bottom)\<close>: a fragment with
  \<open>w \<le> 0\<close> or \<open>h \<le> 0\<close> is passed over; otherwise the four conditional
  assignments.\<close>

definition bbox_step :: "ASS_Image \<Rightarrow> int \<times> int \<times> int \<times> int \<Rightarrow> int \<times> int \<times> int \<times> int" where
  "bbox_step img = (\<lambda>(b_left, b_top, b_right, b_bottom).
     if w img \<le> 0 \<or> h img \<le> 0 then (b_left, b_top, b_right, b_bottom)
     else let x1 = dst_x img; y1 = dst_y img;
              x2 = int32 (dst_x img + w img); y2 = int32 (dst_y img + h img)
          in (if x1 < b_left then x1 else b_left,
              if y1 < b_top then y1 else b_top,
              if x2 > b_right then x2 else b_right,
              if y2 > b_bottom then y2 else b_bottom))"

definition compute_bounding_box :: "ASS_Image list \<Rightarrow> int \<Rightarrow> int \<Rightarrow> bounding_box" where
  "compute_bounding_box img_list canvas_w canvas_h =
     (case fold bbox_step img_list (canvas_w, canvas_h, 0, 0) of
        (b_left, b_top, b_right, b_bottom) \<Rightarrow>
          \<lparr>out_left = (if b_left < 0 then 0 else b_left),
           out_top = (if b_top < 0 then 0 else b_top),
           out_right = (if b_right > canvas_w then canvas_w else b_right),
           out_bottom = (if b_bottom > canvas_h then canvas_h else b_bottom)\<rparr>)"

text \<open>The reducer in the words of the specification: start from
  \<open>(canvas_w, canvas_h, 0, 0)\<close>, fold the raw extent of every fragment with positive
  width and height by component-wise min and max, then clamp. The sums are those of
  the integers.\<close>

definition bbox_spec :: "ASS_Image list \<Rightarrow> int \<Rightarrow> int \<Rightarrow> bounding_box" where
  "bbox_spec img_list canvas_w canvas_h =
     (case foldl (\<lambda>(l, t, r, b) img.
                    (min l (dst_x img), min t (dst_y img),
                     max r (dst_x img + w img), max b (dst_y img + h img)))
                 (canvas_w, canvas_h, 0, 0)
                 (filter (\<lambda>img. 0 < w img \<and> 0 < h img) img_list) of
        (l, t, r, b) \<Rightarrow>
          \<lparr>out_left = max 0 l, out_top = max 0 t,
           out_right = min canvas_w r, out_bottom = min canvas_h b\<rparr>)"

section \<open>The crop copy of \<open>nativeRenderFrame\<close>\<close>

text \<open>Lines 377 to 382 copy the bounding box out of the full-frame buffer into the
  pixels of the new bitmap, one row per \<open>memcpy\<close>. The two buffers are separate
  allocations.\<close>

record crop_buffers =
  full_pixels :: "u32 list"
  bmp_pixels :: "u32 list"

text \<open>\<open>memcpy(dst_row, src_row, crop_w * sizeof(uint32_t))\<close> with
  \<open>dst_row = dst + dst_off\<close> and \<open>src_row = full_pixels + src_off\<close>, counted in pixels:
  \<open>n\<close> pixels of the bitmap are overwritten, the full-frame buffer is only read. A copy
  that leaves either buffer is a fault.\<close>

definition memcpy_row :: "crop_buffers \<Rightarrow> int \<Rightarrow> int \<Rightarrow> int \<Rightarrow> fault + crop_buffers" where
  "memcpy_row s dst_off src_off n =
     (if 0 \<le> n \<and> 0 \<le> src_off \<and> src_off + n \<le> int (length (full_pixels s))
         \<and> 0 \<le> dst_off \<and> dst_off + n \<le> int (length (bmp_pixels s))
      then Inr (s\<lparr>bmp_pixels :=
                   take (nat dst_off) (bmp_pixels s)
                   @ take (nat n) (drop (nat src_off) (full_pixels s))
                   @ drop (nat (dst_off + n)) (bmp_pixels s)\<rparr>)
      else Inl Copy_Fault)"

text \<open>\<open>for (int y = 0; y < crop_h; y++)\<close>, with \<open>crop_w = right - left\<close> and
  \<open>crop_h = bottom - top\<close> at the call.\<close>

definition copy_crop ::
  "int \<Rightarrow> int \<Rightarrow> int \<Rightarrow> int \<Rightarrow> int \<Rightarrow> crop_buffers \<Rightarrow> fault + crop_buffers" where
  "copy_crop frame_w b_left b_top crop_w crop_h s =
     fold_result
       (\<lambda>y s. memcpy_row s (y * crop_w) ((b_top + y) * frame_w + b_left) crop_w)
       [0 .. crop_h - 1] s"

text \<open>Modelled from the spec: the re-placement of the round-trip property (section 8,
  "Round-trip crop"), which the source does not contain. The cropped buffer is placed
  at \<open>(left, top)\<close> on a freshly zeroed canvas of \<open>canvas_w * canvas_h\<close> pixels: the
  cell at column \<open>x\<close>, row \<open>y\<close> inside the box receives the cropped pixel at column
  \<open>x - left\<close>, row \<open>y - top\<close>; every other cell stays 0.\<close>

definition place_region ::
  "u32 list \<Rightarrow> int \<Rightarrow> int \<Rightarrow> int \<Rightarrow> int \<Rightarrow> int \<Rightarrow> int \<Rightarrow> u32 list" where
  "place_region crop canvas_w canvas_h b_left b_top b_right b_bottom =
     map (\<lambda>i. let x = int i mod canvas_w; y = int i div canvas_w in
            if b_left \<le> x \<and> x < b_right \<and> b_top \<le> y \<and> y < b_bottom
            then crop ! nat ((y - b_top) * (b_right - b_left) + (x - b_left)) else 0)
         [0 ..< nat (canvas_w * canvas_h)]"

section \<open>Well-formed input and the order on canvases\<close>

text \<open>The bytes of a fragment's bitmap that the two loops of \<open>blend_ass_image\<close> can
  read are those at \<open>y * stride + x\<close> for \<open>0 \<le> y < h\<close> and \<open>0 \<le> x < w\<close>. \<open>bitmap_ok\<close>
  says that the bitmap holds them all: rows are \<open>stride\<close> bytes apart and the buffer has
  \<open>h - 1\<close> full rows and \<open>w\<close> bytes of the last one. A buffer of at least \<open>h * stride\<close>
  bytes with \<open>w \<le> stride\<close> is a special case. Nothing is required of a fragment that
  has no pixel.\<close>

definition bitmap_ok :: "ASS_Image \<Rightarrow> bool" where
  "bitmap_ok img =
     (w img \<le> 0 \<or> h img \<le> 0 \<or>
      (0 \<le> stride img \<and> (h img - 1) * stride img + w img \<le> int (length (bitmap img))))"

text \<open>\<open>alpha_le px px'\<close>: the canvases have the same size and no pixel of \<open>px'\<close> has a
  smaller alpha channel than the same pixel of \<open>px\<close>.\<close>

definition alpha_le :: "u32 list \<Rightarrow> u32 list \<Rightarrow> bool" where
  "alpha_le px px' = list_all2 (\<lambda>p p'. px_a p \<le> px_a p') px px'"

section \<open>Loops that may fault\<close>

lemma fold_result_inv:
  assumes "fold_result f xs s = Inr s'" and "P s"
    and "\<And>x t t'. x \<in> set xs \<Longrightarrow> P t \<Longrightarrow> f x t = Inr t' \<Longrightarrow> P t'"
  shows "P s'"
  using assms
proof (induction xs arbitrary: s)
  case Nil
  then show ?case by simp
next
  case (Cons x xs)
  from Cons.prems(1) obtain t where t: "f x s = Inr t" and r: "fold_result f xs t = Inr s'"
    by (auto split: sum.splits)
  have "P t" using Cons.prems(3) [of x s t] Cons.prems(2) t by simp
  with r Cons.prems(3) show ?case by (intro Cons.IH [of t]) auto
qed

lemma fold_result_no_fault:
  assumes "P s"
    and "\<And>x t. x \<in> set xs \<Longrightarrow> P t \<Longrightarrow> f x t \<noteq> Inl e"
    and "\<And>x t t'. x \<in> set xs \<Longrightarrow> P t \<Longrightarrow> f x t = Inr t' \<Longrightarrow> P t'"
  shows "fold_result f xs s \<noteq> Inl e"
  using assms
proof (induction xs arbitrary: s)
  case Nil
  then show ?case by simp
next
  case (Cons x xs)
  show ?case
  proof (cases "f x s")
    case (Inl e')
    with Cons.prems(1,2) show ?thesis by auto
  next
    case (Inr t)
    have "P t" using Cons.prems(3) [of x s t] Cons.prems(1) Inr by simp
    have "fold_result f xs t \<noteq> Inl e"
    proof (rule Cons.IH)
      show "P t" by fact
    next
      fix x' u
      assume "x' \<in> set xs" and "P u"
      then show "f x' u \<noteq> Inl e" using Cons.prems(2) [of x' u] by simp
    next
      fix x' u u'
      assume "x' \<in> set xs" and "P u" and "f x' u = Inr u'"
      then show "P u'" using Cons.prems(3) [of x' u u'] by simp
    qed
    with Inr show ?thesis by simp
  qed
qed

lemma fold_result_total:
  assumes "P s"
    and "\<And>x t. x \<in> set xs \<Longrightarrow> P t \<Longrightarrow> \<exists>t'. f x t = Inr t' \<and> P t'"
  shows "\<exists>s'. fold_result f xs s = Inr s' \<and> P s'"
  using assms
proof (induction xs arbitrary: s)
  case Nil
  then show ?case by simp
next
  case (Cons x xs)
  from Cons.prems obtain t where t: "f x s = Inr t" "P t" by fastforce
  have "\<exists>s'. fold_result f xs t = Inr s' \<and> P s'"
    using t(2) Cons.prems(2) by (intro Cons.IH) auto
  with t show ?case by simp
qed

lemma fold_result_id:
  "(\<And>x. x \<in> set xs \<Longrightarrow> f x s = Inr s) \<Longrightarrow> fold_result f xs s = Inr s"
  by (induction xs) auto

lemma fold_result_append:
  "fold_result f (xs @ ys) s =
     (case fold_result f xs s of Inl e \<Rightarrow> Inl e | Inr s' \<Rightarrow> fold_result f ys s')"
  by (induction xs arbitrary: s) (auto split: sum.splits)

section \<open>Byte arithmetic of the blend\<close>

lemma unat_u8_le: "unat (x :: u8) \<le> 255"
  using unsigned_less [of x, where ?'a = nat] by simp

lemma unat_ucast_u8: "unat (ucast (x :: u8) :: u32) = unat x"
  using unat_u8_le [of x] by (simp add: unsigned_ucast_eq take_bit_nat_eq_self)

lemma frac_le: "(a::nat) \<le> 255 \<Longrightarrow> a * b div 255 \<le> b"
proof -
  assume "a \<le> 255"
  then have "a * b \<le> 255 * b" by (rule mult_le_mono1)
  then have "a * b div 255 \<le> 255 * b div 255" by (rule div_le_mono)
  then show ?thesis by simp
qed

lemma final_alpha_unat:
  "unat (final_alpha ba a) = unat ba * (255 - unat a) div 255"
proof -
  have a: "unat (255 - ucast a :: u32) = 255 - unat a"
    using unat_u8_le [of a] by (simp add: unat_sub word_le_nat_alt unat_ucast_u8)
  have "unat ba * (255 - unat a) \<le> 255 * 255"
    using unat_u8_le [of ba] by (intro mult_mono) auto
  then have m: "unat (ucast ba * (255 - ucast a) :: u32) = unat ba * (255 - unat a)"
    by (simp add: unat_word_ariths a unat_ucast_u8)
  show ?thesis
    by (simp add: final_alpha_def unat_div m)
qed

lemma final_alpha_le: "unat (final_alpha ba a) \<le> 255"
proof -
  have "unat ba * (255 - unat a) div 255 \<le> 255 - unat a"
    using unat_u8_le [of ba] by (rule frac_le)
  then show ?thesis by (simp add: final_alpha_unat)
qed

lemma out_alpha_sum:
  assumes "unat fa \<le> 255"
  shows "unat (fa + ucast (da :: u8) * (255 - fa) div 255 :: u32) = unat fa + unat da * (255 - unat fa) div 255"
    and "unat fa + unat da * (255 - unat fa) div 255 \<le> 255"
proof -
  have i: "unat (255 - fa) = 255 - unat fa"
    using assms by (simp add: unat_sub word_le_nat_alt)
  have "unat da * (255 - unat fa) \<le> 255 * 255"
    using unat_u8_le [of da] by (intro mult_mono) auto
  then have m: "unat (ucast da * (255 - fa) :: u32) = unat da * (255 - unat fa)"
    by (simp add: unat_word_ariths i unat_ucast_u8)
  have d: "unat (ucast da * (255 - fa) div 255 :: u32) = unat da * (255 - unat fa) div 255"
    by (simp add: unat_div m)
  have "unat da * (255 - unat fa) div 255 \<le> 255 - unat fa"
    using unat_u8_le [of da] by (rule frac_le)
  with assms show le: "unat fa + unat da * (255 - unat fa) div 255 \<le> 255" by simp
  have "unat fa + unat (ucast da * (255 - fa) div 255 :: u32) < 2 ^ LENGTH(32)"
    using le by (simp add: d)
  then have "unat (fa + ucast da * (255 - fa) div 255 :: u32)
               = unat fa + unat (ucast da * (255 - fa) div 255 :: u32)"
    by (rule unat_add_lem [THEN iffD1])
  then show "unat (fa + ucast da * (255 - fa) div 255 :: u32) = unat fa + unat da * (255 - unat fa) div 255"
    by (simp only: d)
qed

lemma out_alpha_unat:
  assumes "unat fa \<le> 255"
  shows "unat (out_alpha fa da) = unat fa + unat da * (255 - unat fa) div 255"
proof -
  have "unat (out_alpha fa da) = unat (fa + ucast da * (255 - fa) div 255 :: u32) mod 256"
    by (simp add: out_alpha_def unsigned_ucast_eq take_bit_eq_mod)
  with out_alpha_sum [OF assms, of da] show ?thesis by simp
qed

lemma out_alpha_ge:
  assumes "unat fa \<le> 255"
  shows "unat da \<le> unat (out_alpha fa da)"
proof -
  let ?s = "unat fa" and ?d = "unat da"
  have d: "?d \<le> 255" by (rule unat_u8_le)
  have "?d * 255 = ?d * ?s + ?d * (255 - ?s)"
    using assms by (simp add: distrib_left [symmetric])
  also have "\<dots> \<le> 255 * ?s + ?d * (255 - ?s)"
    using d by (simp add: mult_le_mono1)
  finally have "?d * 255 div 255 \<le> (255 * ?s + ?d * (255 - ?s)) div 255"
    by (rule div_le_mono)
  then have "?d \<le> ?s + ?d * (255 - ?s) div 255" by simp
  then show ?thesis by (simp add: out_alpha_unat [OF assms])
qed

lemma byte_mask: "(0xFF :: u32) = mask 8"
  by (simp add: mask_eq_exp_minus_1)

lemma px_a_pack_argb: "px_a (pack_argb a r g b) = a"
  unfolding px_a_def pack_argb_def byte_mask
  by (rule bit_word_eqI) (auto simp: bit_simps dest: bit_imp_le_length)

lemma px_r_pack_argb: "px_r (pack_argb a r g b) = r"
  unfolding px_r_def pack_argb_def byte_mask
  by (rule bit_word_eqI) (auto simp: bit_simps dest: bit_imp_le_length)

lemma px_g_pack_argb: "px_g (pack_argb a r g b) = g"
  unfolding px_g_def pack_argb_def byte_mask
  by (rule bit_word_eqI) (auto simp: bit_simps dest: bit_imp_le_length)

lemma px_b_pack_argb: "px_b (pack_argb a r g b) = b"
  unfolding px_b_def pack_argb_def byte_mask
  by (rule bit_word_eqI) (auto simp: bit_simps dest: bit_imp_le_length)

lemma px_a_blend_pixel: "px_a (blend_pixel r g b fa p) = out_alpha fa (px_a p)"
  by (simp add: blend_pixel_def Let_def px_a_pack_argb)

lemma blend_pixel_channels:
  "px_a (blend_pixel r g b fa p) = out_alpha fa (px_a p)"
  "px_r (blend_pixel r g b fa p) = out_channel r fa (px_r p) (px_a p) (out_alpha fa (px_a p))"
  "px_g (blend_pixel r g b fa p) = out_channel g fa (px_g p) (px_a p) (out_alpha fa (px_a p))"
  "px_b (blend_pixel r g b fa p) = out_channel b fa (px_b p) (px_a p) (out_alpha fa (px_a p))"
  by (simp_all add: blend_pixel_def Let_def px_a_pack_argb px_r_pack_argb px_g_pack_argb
      px_b_pack_argb)

lemma out_channel_unat:
  assumes "unat fa \<le> 255" and "out_a \<noteq> 0"
  shows "unat (out_channel c fa dst_c dst_a out_a) =
           ((unat c * unat fa + unat dst_c * unat dst_a * (255 - unat fa) div 255)
              div unat out_a) mod 256"
proof -
  let ?inv = "255 - unat fa"
  have i: "unat (255 - fa) = ?inv"
    using assms(1) by (simp add: unat_sub word_le_nat_alt)
  have "unat c * unat fa \<le> 255 * 255"
    using unat_u8_le [of c] assms(1) by (intro mult_mono) auto
  then have m1: "unat (ucast c * fa :: u32) = unat c * unat fa"
    by (simp add: unat_word_ariths unat_ucast_u8)
  have b2: "unat dst_c * unat dst_a \<le> 255 * 255"
    using unat_u8_le [of dst_c] unat_u8_le [of dst_a] by (intro mult_mono) auto
  then have m2: "unat (ucast dst_c * ucast dst_a :: u32) = unat dst_c * unat dst_a"
    by (simp add: unat_word_ariths unat_ucast_u8)
  have "?inv \<le> 255" by simp
  with b2 have b3: "unat dst_c * unat dst_a * ?inv \<le> 255 * 255 * 255"
    by (rule mult_le_mono)
  have "unat (ucast dst_c * ucast dst_a * (255 - fa) :: u32)
          = unat (ucast dst_c * ucast dst_a :: u32) * unat (255 - fa)"
    using b3 by (intro unat_mult_lem [THEN iffD1]) (simp add: m2 i)
  then have m3: "unat (ucast dst_c * ucast dst_a * (255 - fa) :: u32)
          = unat dst_c * unat dst_a * ?inv"
    by (simp only: m2 i)
  have d: "unat (ucast dst_c * ucast dst_a * (255 - fa) div 255 :: u32)
          = unat dst_c * unat dst_a * ?inv div 255"
    by (simp add: unat_div m3)
  have "unat dst_c * unat dst_a * ?inv div 255 \<le> 255 * 255"
    using b3 by simp
  with \<open>unat c * unat fa \<le> 255 * 255\<close>
  have "unat (ucast c * fa :: u32)
          + unat (ucast dst_c * ucast dst_a * (255 - fa) div 255 :: u32) < 2 ^ LENGTH(32)"
    by (simp add: m1 d)
  then have "unat (ucast c * fa + ucast dst_c * ucast dst_a * (255 - fa) div 255 :: u32)
          = unat (ucast c * fa :: u32)
            + unat (ucast dst_c * ucast dst_a * (255 - fa) div 255 :: u32)"
    by (rule unat_add_lem [THEN iffD1])
  then have s: "unat (ucast c * fa + ucast dst_c * ucast dst_a * (255 - fa) div 255 :: u32)
          = unat c * unat fa + unat dst_c * unat dst_a * ?inv div 255"
    by (simp only: m1 d)
  have q: "unat ((ucast c * fa + ucast dst_c * ucast dst_a * (255 - fa) div 255)
                  div ucast out_a :: u32)
          = (unat c * unat fa + unat dst_c * unat dst_a * ?inv div 255) div unat out_a"
    by (simp only: unat_div s unat_ucast_u8)
  have "unat (out_channel c fa dst_c dst_a out_a)
          = unat ((ucast c * fa + ucast dst_c * ucast dst_a * (255 - fa) div 255)
                  div ucast out_a :: u32) mod 256"
    using assms(2) by (simp add: out_channel_def unsigned_ucast_eq take_bit_eq_mod)
  then show ?thesis by (simp only: q)
qed

section \<open>The canvas under \<open>blend_ass_image\<close>\<close>

lemma canvas_index_Inr:
  assumes "canvas_index px cw ch cx cy = Inr i"
  shows "0 \<le> cx \<and> cx < cw \<and> 0 \<le> cy \<and> cy < ch \<and> int i = cy * cw + cx \<and> i < length px"
proof -
  let ?c = "0 \<le> cx \<and> cx < cw \<and> 0 \<le> cy \<and> cy < ch
              \<and> 0 \<le> cy * cw + cx \<and> cy * cw + cx < int (length px)"
  have c: ?c
  proof (rule ccontr)
    assume "\<not> ?c"
    then have "canvas_index px cw ch cx cy = Inl Canvas_Fault"
      by (simp only: canvas_index_def if_False)
    with assms show False by simp
  qed
  then have "canvas_index px cw ch cx cy = Inr (nat (cy * cw + cx))"
    by (simp only: canvas_index_def if_True simp_thms)
  with assms have "i = nat (cy * cw + cx)" by simp
  with c show ?thesis by linarith
qed

lemma canvas_index_ok:
  assumes "0 \<le> cx" "cx < cw" "0 \<le> cy" "cy < ch" "cw * ch \<le> int (length px)"
  shows "canvas_index px cw ch cx cy = Inr (nat (cy * cw + cx))"
proof -
  have "0 \<le> cy * cw" using assms by simp
  then have lo: "0 \<le> cy * cw + cx" using assms by simp
  have "cy * cw \<le> (ch - 1) * cw"
    using assms by (intro mult_right_mono) auto
  then have "cy * cw + cx < ch * cw" using assms by (simp add: algebra_simps)
  then have hi: "cy * cw + cx < int (length px)" using assms by (simp add: mult.commute)
  show ?thesis
    using assms lo hi by (simp only: canvas_index_def if_True simp_thms)
qed

lemma blend_col_cases:
  assumes "blend_col cw ch img y cy x px = Inr px'"
  shows "px' = px \<or>
    (\<exists>i ba. i < length px \<and> px' = px[i := blend_pixel (img_r img) (img_g img) (img_b img)
                (final_alpha ba (img_a img)) (px ! i)])"
proof (cases "dst_x img + x < 0 \<or> dst_x img + x \<ge> cw")
  case True
  with assms show ?thesis by (simp add: blend_col_def)
next
  case inside: False
  from assms inside obtain ba
    where ba: "load_bitmap (bitmap img) (y * stride img + x) = Inr ba"
    by (auto simp: blend_col_def split: sum.splits)
  show ?thesis
  proof (cases "ba = 0 \<or> final_alpha ba (img_a img) = 0")
    case True
    with assms inside ba show ?thesis
      by (auto simp: blend_col_def Let_def split: if_splits)
  next
    case False
    with assms inside ba obtain i
      where i: "canvas_index px cw ch (dst_x img + x) cy = Inr i"
        and px': "px' = px[i := blend_pixel (img_r img) (img_g img) (img_b img)
                              (final_alpha ba (img_a img)) (px ! i)]"
      by (auto simp: blend_col_def Let_def split: sum.splits if_splits)
    from canvas_index_Inr [OF i] have "i < length px" by simp
    with px' show ?thesis by blast
  qed
qed

lemma alpha_le_nth:
  "alpha_le px px' =
     (length px' = length px \<and> (\<forall>i < length px. px_a (px ! i) \<le> px_a (px' ! i)))"
  by (auto simp: alpha_le_def list_all2_conv_all_nth)

lemma alpha_le_refl: "alpha_le px px" by (simp add: alpha_le_nth)

lemma alpha_le_trans: "alpha_le a b \<Longrightarrow> alpha_le b c \<Longrightarrow> alpha_le a c"
  by (fastforce simp: alpha_le_nth)

lemma blend_col_alpha:
  assumes "blend_col cw ch img y cy x px = Inr px'"
  shows "alpha_le px px'"
proof -
  have "px_a p \<le> px_a (blend_pixel r g b (final_alpha ba a) p)" for r g b ba a p
    by (simp add: px_a_blend_pixel word_le_nat_alt out_alpha_ge final_alpha_le)
  with blend_col_cases [OF assms] show ?thesis
    by (auto simp: alpha_le_nth nth_list_update)
qed

lemma blend_row_alpha:
  assumes "blend_row cw ch img y px = Inr px'"
  shows "alpha_le px px'"
proof (cases "dst_y img + y < 0 \<or> dst_y img + y \<ge> ch")
  case True
  with assms show ?thesis by (simp add: blend_row_def alpha_le_refl)
next
  case False
  with assms have "fold_result (blend_col cw ch img y (dst_y img + y)) [0 .. w img - 1] px = Inr px'"
    by (simp add: blend_row_def)
  then show ?thesis
  proof (rule fold_result_inv)
    show "alpha_le px px" by (rule alpha_le_refl)
  next
    fix x t t'
    assume "alpha_le px t" and "blend_col cw ch img y (dst_y img + y) x t = Inr t'"
    then show "alpha_le px t'"
      using blend_col_alpha [of cw ch img y "dst_y img + y" x t t']
      by (blast intro: alpha_le_trans)
  qed
qed

lemma blend_image_alpha:
  assumes "blend_image cw ch img px = Inr px'"
  shows "alpha_le px px'"
  using assms unfolding blend_image_def
proof (rule fold_result_inv)
  show "alpha_le px px" by (rule alpha_le_refl)
next
  fix y t t'
  assume "alpha_le px t" and "blend_row cw ch img y t = Inr t'"
  then show "alpha_le px t'"
    by (blast intro: alpha_le_trans blend_row_alpha)
qed

lemma blend_ass_image_alpha:
  assumes "blend_ass_image px cw ch imgs = Inr px'"
  shows "alpha_le px px'"
  using assms unfolding blend_ass_image_def
proof (rule fold_result_inv)
  show "alpha_le px px" by (rule alpha_le_refl)
next
  fix img t t'
  assume "alpha_le px t" and "blend_image cw ch img t = Inr t'"
  then show "alpha_le px t'"
    by (blast intro: alpha_le_trans blend_image_alpha)
qed

lemma blend_col_length:
  "blend_col cw ch img y cy x px = Inr px' \<Longrightarrow> length px' = length px"
  using blend_col_alpha [of cw ch img y cy x px px'] by (simp add: alpha_le_nth)

lemma blend_row_length:
  "blend_row cw ch img y px = Inr px' \<Longrightarrow> length px' = length px"
  using blend_row_alpha [of cw ch img y px px'] by (simp add: alpha_le_nth)

lemma blend_image_length:
  "blend_image cw ch img px = Inr px' \<Longrightarrow> length px' = length px"
  using blend_image_alpha [of cw ch img px px'] by (simp add: alpha_le_nth)

lemma bitmap_index_ok:
  assumes "bitmap_ok img" "0 \<le> y" "y \<le> h img - 1" "0 \<le> x" "x \<le> w img - 1"
  shows "0 \<le> y * stride img + x \<and> y * stride img + x < int (length (bitmap img))"
proof -
  from assms have s: "0 \<le> stride img"
    and l: "(h img - 1) * stride img + w img \<le> int (length (bitmap img))"
    by (auto simp: bitmap_ok_def)
  have "0 \<le> y * stride img" using assms(2) s by simp
  moreover have "y * stride img \<le> (h img - 1) * stride img"
    using assms(3) s by (rule mult_right_mono)
  ultimately show ?thesis using assms(4,5) l by linarith
qed

lemma blend_col_no_canvas_fault:
  assumes "0 \<le> cy" "cy < ch" "cw * ch \<le> int (length px)"
  shows "blend_col cw ch img y cy x px \<noteq> Inl Canvas_Fault"
proof (cases "dst_x img + x < 0 \<or> dst_x img + x \<ge> cw")
  case True
  then show ?thesis by (simp add: blend_col_def)
next
  case False
  then have "canvas_index px cw ch (dst_x img + x) cy = Inr (nat (cy * cw + (dst_x img + x)))"
    using assms by (intro canvas_index_ok) auto
  with False show ?thesis
    by (auto simp: blend_col_def Let_def load_bitmap_def split: sum.splits if_splits)
qed

lemma blend_col_total:
  assumes "0 \<le> cy" "cy < ch" "cw * ch \<le> int (length px)"
    and "0 \<le> y * stride img + x" "y * stride img + x < int (length (bitmap img))"
  shows "\<exists>px'. blend_col cw ch img y cy x px = Inr px'"
proof (cases "dst_x img + x < 0 \<or> dst_x img + x \<ge> cw")
  case True
  then show ?thesis by (simp add: blend_col_def)
next
  case False
  then have "canvas_index px cw ch (dst_x img + x) cy = Inr (nat (cy * cw + (dst_x img + x)))"
    using assms by (intro canvas_index_ok) auto
  with False assms(4,5) show ?thesis
    by (simp add: blend_col_def Let_def load_bitmap_def)
qed

lemma blend_row_no_canvas_fault:
  assumes "cw * ch \<le> int (length px)"
  shows "blend_row cw ch img y px \<noteq> Inl Canvas_Fault"
proof (cases "dst_y img + y < 0 \<or> dst_y img + y \<ge> ch")
  case True
  then show ?thesis by (simp add: blend_row_def)
next
  case False
  have "fold_result (blend_col cw ch img y (dst_y img + y)) [0 .. w img - 1] px \<noteq> Inl Canvas_Fault"
  proof (rule fold_result_no_fault [where P = "\<lambda>t. length t = length px"])
    show "length px = length px" by simp
  next
    fix x :: int and t :: "u32 list"
    assume "length t = length px"
    with False assms show "blend_col cw ch img y (dst_y img + y) x t \<noteq> Inl Canvas_Fault"
      by (intro blend_col_no_canvas_fault) auto
  next
    fix x :: int and t t' :: "u32 list"
    assume "length t = length px" and "blend_col cw ch img y (dst_y img + y) x t = Inr t'"
    then show "length t' = length px" by (simp add: blend_col_length)
  qed
  with False show ?thesis by (simp add: blend_row_def)
qed

lemma blend_row_total:
  assumes "cw * ch \<le> int (length px)" "bitmap_ok img" "0 \<le> y" "y \<le> h img - 1"
  shows "\<exists>px'. blend_row cw ch img y px = Inr px'"
proof (cases "dst_y img + y < 0 \<or> dst_y img + y \<ge> ch")
  case True
  then show ?thesis by (simp add: blend_row_def)
next
  case False
  have "\<exists>px'. fold_result (blend_col cw ch img y (dst_y img + y)) [0 .. w img - 1] px = Inr px'
          \<and> length px' = length px"
  proof (rule fold_result_total [where P = "\<lambda>t. length t = length px"])
    show "length px = length px" by simp
  next
    fix x :: int and t :: "u32 list"
    assume x: "x \<in> set [0 .. w img - 1]" and t: "length t = length px"
    from x assms have "0 \<le> y * stride img + x \<and> y * stride img + x < int (length (bitmap img))"
      by (intro bitmap_index_ok) auto
    with False assms(1) t
    obtain t' where "blend_col cw ch img y (dst_y img + y) x t = Inr t'"
      using blend_col_total [of "dst_y img + y" ch cw t y img x] by auto
    with t show "\<exists>t'. blend_col cw ch img y (dst_y img + y) x t = Inr t' \<and> length t' = length px"
      by (auto dest: blend_col_length)
  qed
  with False show ?thesis by (auto simp: blend_row_def)
qed

lemma blend_image_no_canvas_fault:
  assumes "cw * ch \<le> int (length px)"
  shows "blend_image cw ch img px \<noteq> Inl Canvas_Fault"
  unfolding blend_image_def
proof (rule fold_result_no_fault [where P = "\<lambda>t. length t = length px"])
  show "length px = length px" by simp
next
  fix y :: int and t :: "u32 list"
  assume "length t = length px"
  with assms show "blend_row cw ch img y t \<noteq> Inl Canvas_Fault"
    by (intro blend_row_no_canvas_fault) simp
next
  fix y :: int and t t' :: "u32 list"
  assume "length t = length px" and "blend_row cw ch img y t = Inr t'"
  then show "length t' = length px" by (simp add: blend_row_length)
qed

lemma blend_image_total:
  assumes "cw * ch \<le> int (length px)" "bitmap_ok img"
  shows "\<exists>px'. blend_image cw ch img px = Inr px' \<and> length px' = length px"
  unfolding blend_image_def
proof (rule fold_result_total [where P = "\<lambda>t. length t = length px"])
  show "length px = length px" by simp
next
  fix y :: int and t :: "u32 list"
  assume y: "y \<in> set [0 .. h img - 1]" and t: "length t = length px"
  with assms obtain t' where "blend_row cw ch img y t = Inr t'"
    using blend_row_total [of cw ch t img y] by auto
  with t show "\<exists>t'. blend_row cw ch img y t = Inr t' \<and> length t' = length px"
    by (auto dest: blend_row_length)
qed

lemma blend_col_zero:
  assumes "\<forall>b \<in> set (bitmap img). b = 0"
    and "0 \<le> y * stride img + x" "y * stride img + x < int (length (bitmap img))"
  shows "blend_col cw ch img y cy x px = Inr px"
proof -
  have "bitmap img ! nat (y * stride img + x) \<in> set (bitmap img)"
    using assms(2,3) by (intro nth_mem) linarith
  with assms(1) have "bitmap img ! nat (y * stride img + x) = 0" by blast
  with assms(2,3) show ?thesis
    by (simp add: blend_col_def Let_def load_bitmap_def)
qed

lemma blend_image_zero:
  assumes "\<forall>b \<in> set (bitmap img). b = 0" "bitmap_ok img"
  shows "blend_image cw ch img px = Inr px"
  unfolding blend_image_def
proof (rule fold_result_id)
  fix y
  assume y: "y \<in> set [0 .. h img - 1]"
  have "fold_result (blend_col cw ch img y (dst_y img + y)) [0 .. w img - 1] px = Inr px"
  proof (rule fold_result_id)
    fix x
    assume x: "x \<in> set [0 .. w img - 1]"
    with y assms(2) have "0 \<le> y * stride img + x \<and> y * stride img + x < int (length (bitmap img))"
      by (intro bitmap_index_ok) auto
    with assms(1) show "blend_col cw ch img y (dst_y img + y) x px = Inr px"
      by (intro blend_col_zero) auto
  qed
  then show "blend_row cw ch img y px = Inr px"
    by (simp add: blend_row_def Let_def)
qed

section \<open>The running rectangle of \<open>compute_bounding_box\<close>\<close>

lemma int32_id: "in_int32 z \<Longrightarrow> int32 z = z"
  by (simp add: int32_def in_int32_def)

lemma bbox_step_min_max:
  "bbox_step img (l, t, r, b) =
     (if 0 < w img \<and> 0 < h img
      then (min l (dst_x img), min t (dst_y img),
            max r (int32 (dst_x img + w img)), max b (int32 (dst_y img + h img)))
      else (l, t, r, b))"
  by (auto simp: bbox_step_def Let_def min_def max_def)

lemma fold_bbox_step_filter:
  assumes "\<forall>img \<in> set imgs. 0 < w img \<and> 0 < h img \<longrightarrow>
             in_int32 (dst_x img + w img) \<and> in_int32 (dst_y img + h img)"
  shows "fold bbox_step imgs acc =
     foldl (\<lambda>(l, t, r, b) img.
              (min l (dst_x img), min t (dst_y img),
               max r (dst_x img + w img), max b (dst_y img + h img)))
           acc (filter (\<lambda>img. 0 < w img \<and> 0 < h img) imgs)"
  using assms
proof (induction imgs arbitrary: acc)
  case Nil
  show ?case by simp
next
  case (Cons img imgs)
  obtain l t r b where acc: "acc = (l, t, r, b)" by (cases acc) auto
  have rest: "\<forall>img \<in> set imgs. 0 < w img \<and> 0 < h img \<longrightarrow>
             in_int32 (dst_x img + w img) \<and> in_int32 (dst_y img + h img)"
    using Cons.prems by simp
  have step: "bbox_step img (l, t, r, b) =
     (if 0 < w img \<and> 0 < h img
      then (min l (dst_x img), min t (dst_y img),
            max r (dst_x img + w img), max b (dst_y img + h img))
      else (l, t, r, b))"
    using Cons.prems by (auto simp: bbox_step_min_max int32_id)
  show ?case
    by (simp add: acc step Cons.IH [OF rest])
qed

lemma fold_bbox_step_degenerate:
  "\<forall>img \<in> set imgs. w img \<le> 0 \<or> h img \<le> 0 \<Longrightarrow> fold bbox_step imgs acc = acc"
  by (induction imgs arbitrary: acc) (auto simp: bbox_step_def split: prod.splits)

lemma bbox_degenerate_remove:
  "w img \<le> 0 \<or> h img \<le> 0 \<Longrightarrow> fold bbox_step (xs @ img # ys) acc = fold bbox_step (xs @ ys) acc"
  by (cases "fold bbox_step xs acc") (auto simp: bbox_step_def)

lemma bbox_step_ignores_bitmap: "bbox_step (img\<lparr>bitmap := bm\<rparr>) = bbox_step img"
  by (rule ext) (auto simp: bbox_step_def Let_def split: prod.splits)

lemma fold_bbox_step_mono:
  "fold bbox_step imgs (l, t, r, b) = (l', t', r', b') \<Longrightarrow> l' \<le> l \<and> t' \<le> t \<and> r \<le> r' \<and> b \<le> b'"
proof (induction imgs arbitrary: l t r b)
  case Nil
  then show ?case by simp
next
  case (Cons img imgs)
  obtain l1 t1 r1 b1 where s: "bbox_step img (l, t, r, b) = (l1, t1, r1, b1)"
    by (cases "bbox_step img (l, t, r, b)") auto
  from s have "l1 \<le> l \<and> t1 \<le> t \<and> r \<le> r1 \<and> b \<le> b1"
    by (auto simp: bbox_step_min_max split: if_splits)
  moreover from Cons.prems s have "fold bbox_step imgs (l1, t1, r1, b1) = (l', t', r', b')"
    by simp
  from Cons.IH [OF this] have "l' \<le> l1 \<and> t' \<le> t1 \<and> r1 \<le> r' \<and> b1 \<le> b'" .
  ultimately show ?case by linarith
qed

lemma fold_bbox_step_nonempty:
  "fold bbox_step imgs (l, t, r, b) = (l', t', r', b') \<Longrightarrow>
   \<exists>img \<in> set imgs. 0 < w img \<and> 0 < h img
      \<and> in_int32 (dst_x img + w img) \<and> in_int32 (dst_y img + h img) \<Longrightarrow>
   l' < r' \<and> t' < b'"
proof (induction imgs arbitrary: l t r b)
  case Nil
  then show ?case by simp
next
  case (Cons img imgs)
  obtain l1 t1 r1 b1 where s: "bbox_step img (l, t, r, b) = (l1, t1, r1, b1)"
    by (cases "bbox_step img (l, t, r, b)") auto
  from Cons.prems(1) s have f: "fold bbox_step imgs (l1, t1, r1, b1) = (l', t', r', b')"
    by simp
  show ?case
  proof (cases "0 < w img \<and> 0 < h img
      \<and> in_int32 (dst_x img + w img) \<and> in_int32 (dst_y img + h img)")
    case True
    then have "int32 (dst_x img + w img) = dst_x img + w img"
      and "int32 (dst_y img + h img) = dst_y img + h img"
      by (simp_all add: int32_id)
    with s True have "l1 < r1 \<and> t1 < b1"
      by (auto simp: bbox_step_min_max)
    with fold_bbox_step_mono [OF f] show ?thesis by linarith
  next
    case False
    with Cons.prems(2) have "\<exists>img \<in> set imgs. 0 < w img \<and> 0 < h img
      \<and> in_int32 (dst_x img + w img) \<and> in_int32 (dst_y img + h img)" by auto
    from Cons.IH [OF f this] show ?thesis .
  qed
qed

section \<open>Row copies\<close>

lemma row_of_offset:
  fixes c x y y0 :: int
  assumes "0 \<le> x" "x < c"
  shows "(y0 * c \<le> y * c + x \<and> y * c + x < y0 * c + c) = (y = y0)"
proof
  assume a: "y0 * c \<le> y * c + x \<and> y * c + x < y0 * c + c"
  have c: "0 \<le> c" using assms by simp
  show "y = y0"
  proof (rule ccontr)
    assume "y \<noteq> y0"
    then consider "y + 1 \<le> y0" | "y0 + 1 \<le> y" by linarith
    then show False
    proof cases
      case 1
      then have "(y + 1) * c \<le> y0 * c" using c by (rule mult_right_mono)
      with a assms show False by (simp add: algebra_simps)
    next
      case 2
      then have "(y0 + 1) * c \<le> y * c" using c by (rule mult_right_mono)
      with a assms show False by (simp add: algebra_simps)
    qed
  qed
next
  assume "y = y0"
  with assms show "y0 * c \<le> y * c + x \<and> y * c + x < y0 * c + c" by simp
qed

lemma offset_bound:
  fixes c x y n :: int
  assumes "0 \<le> x" "x \<le> c" "0 \<le> y" "y < n"
  shows "0 \<le> y * c + x \<and> y * c + x \<le> n * c"
proof -
  have c: "0 \<le> c" using assms by simp
  have "0 \<le> y * c" using assms c by simp
  moreover have "(y + 1) * c \<le> n * c" using assms c by (intro mult_right_mono) auto
  ultimately show ?thesis using assms by (simp add: algebra_simps)
qed

lemma nth_splice:
  assumes "d + n \<le> length ys" "s + n \<le> length xs" "i < length ys"
  shows "(take d ys @ take n (drop s xs) @ drop (d + n) ys) ! i =
           (if d \<le> i \<and> i < d + n then xs ! (s + (i - d)) else ys ! i)"
proof -
  have l1: "length (take d ys) = d" using assms by simp
  have l2: "length (take n (drop s xs)) = n" using assms by simp
  consider "i < d" | "d \<le> i \<and> i < d + n" | "d + n \<le> i" by linarith
  then show ?thesis
  proof cases
    case 1
    then have "(take d ys @ take n (drop s xs) @ drop (d + n) ys) ! i = take d ys ! i"
      by (simp only: nth_append l1 if_True)
    with 1 show ?thesis by simp
  next
    case 2
    then have a: "\<not> i < d" "i - d < n" by auto
    have "(take d ys @ take n (drop s xs) @ drop (d + n) ys) ! i
            = (take n (drop s xs) @ drop (d + n) ys) ! (i - d)"
      using a(1) by (simp only: nth_append l1 if_False)
    also have "\<dots> = take n (drop s xs) ! (i - d)"
      using a(2) by (simp only: nth_append l2 if_True)
    also have "\<dots> = xs ! (s + (i - d))"
      using a(2) assms(2) by simp
    finally show ?thesis using 2 by simp
  next
    case 3
    then have a: "\<not> i < d" "\<not> i - d < n" by auto
    have "(take d ys @ take n (drop s xs) @ drop (d + n) ys) ! i
            = (take n (drop s xs) @ drop (d + n) ys) ! (i - d)"
      using a(1) by (simp only: nth_append l1 if_False)
    also have "\<dots> = drop (d + n) ys ! (i - d - n)"
      using a(2) by (simp only: nth_append l2 if_False)
    also have "\<dots> = ys ! (d + n + (i - d - n))"
      using assms(1) by simp
    also have "d + n + (i - d - n) = i" using 3 by simp
    finally show ?thesis using 3 by simp
  qed
qed

lemma length_splice:
  assumes "d + n \<le> length ys" "s + n \<le> length xs"
  shows "length (take d ys @ take n (drop s xs) @ drop (d + n) ys) = length ys"
  using assms by simp

lemma memcpy_row_nth:
  assumes "0 \<le> n" "0 \<le> src_off" "src_off + n \<le> int (length (full_pixels s))"
    "0 \<le> dst_off" "dst_off + n \<le> int (length (bmp_pixels s))"
  shows "\<exists>s'. memcpy_row s dst_off src_off n = Inr s'
          \<and> full_pixels s' = full_pixels s
          \<and> length (bmp_pixels s') = length (bmp_pixels s)
          \<and> (\<forall>i. 0 \<le> i \<and> i < int (length (bmp_pixels s)) \<longrightarrow>
                bmp_pixels s' ! nat i =
                  (if dst_off \<le> i \<and> i < dst_off + n
                   then full_pixels s ! nat (src_off + (i - dst_off))
                   else bmp_pixels s ! nat i))"
proof -
  let ?d = "nat dst_off" and ?n = "nat n" and ?s = "nat src_off"
  let ?new = "take ?d (bmp_pixels s) @ take ?n (drop ?s (full_pixels s))
                @ drop (?d + ?n) (bmp_pixels s)"
  have dn: "nat (dst_off + n) = ?d + ?n" using assms by (simp add: nat_add_distrib)
  have run: "memcpy_row s dst_off src_off n = Inr (s\<lparr>bmp_pixels := ?new\<rparr>)"
    using assms by (simp add: memcpy_row_def dn)
  have b1: "?d + ?n \<le> length (bmp_pixels s)" using assms by linarith
  have b2: "?s + ?n \<le> length (full_pixels s)" using assms by linarith
  have len: "length ?new = length (bmp_pixels s)"
    using b1 b2 by (rule length_splice)
  have nth: "?new ! nat i =
                  (if dst_off \<le> i \<and> i < dst_off + n
                   then full_pixels s ! nat (src_off + (i - dst_off))
                   else bmp_pixels s ! nat i)"
    if i: "0 \<le> i" "i < int (length (bmp_pixels s))" for i
  proof -
    have "nat i < length (bmp_pixels s)" using i by linarith
    from nth_splice [OF b1 b2 this]
    have "?new ! nat i = (if ?d \<le> nat i \<and> nat i < ?d + ?n
                          then full_pixels s ! (?s + (nat i - ?d)) else bmp_pixels s ! nat i)" .
    moreover have "(?d \<le> nat i \<and> nat i < ?d + ?n) = (dst_off \<le> i \<and> i < dst_off + n)"
      using i assms by auto
    moreover have "full_pixels s ! (?s + (nat i - ?d)) = full_pixels s ! nat (src_off + (i - dst_off))"
      if "dst_off \<le> i"
    proof -
      have "?s + (nat i - ?d) = nat (src_off + (i - dst_off))"
        using that i assms by linarith
      then show ?thesis by (rule arg_cong)
    qed
    ultimately show ?thesis by presburger
  qed
  show ?thesis using run len nth by simp
qed

lemma copy_rows:
  assumes geo: "0 \<le> l" "0 < cw" "l + cw \<le> fw" "0 \<le> t" "0 < chh" "t + chh \<le> fh"
    and rows: "\<forall>y \<in> set ys. 0 \<le> y \<and> y < chh"
    and full: "fw * fh \<le> int (length (full_pixels s))"
    and bmp: "int (length (bmp_pixels s)) = cw * chh"
  shows "\<exists>s'. fold_result (\<lambda>y s. memcpy_row s (y * cw) ((t + y) * fw + l) cw) ys s = Inr s'
          \<and> full_pixels s' = full_pixels s
          \<and> length (bmp_pixels s') = length (bmp_pixels s)
          \<and> (\<forall>y x. 0 \<le> y \<and> y < chh \<and> 0 \<le> x \<and> x < cw \<longrightarrow>
                bmp_pixels s' ! nat (y * cw + x) =
                  (if y \<in> set ys then full_pixels s ! nat ((t + y) * fw + l + x)
                   else bmp_pixels s ! nat (y * cw + x)))"
  using rows full bmp
proof (induction ys arbitrary: s)
  case Nil
  then show ?case by simp
next
  case (Cons y0 ys)
  from Cons.prems(1) have y0: "0 \<le> y0" "y0 < chh" by auto
  have so: "0 \<le> (t + y0) * fw + l \<and> (t + y0) * fw + l + cw \<le> fh * fw"
    using offset_bound [of "l + cw" fw "t + y0" fh] geo y0
      offset_bound [of l fw "t + y0" fh] by (simp add: algebra_simps)
  have d: "0 \<le> y0 * cw \<and> y0 * cw + cw \<le> chh * cw"
    using offset_bound [of cw cw y0 chh] offset_bound [of 0 cw y0 chh] geo y0 by simp
  obtain s1 where s1: "memcpy_row s (y0 * cw) ((t + y0) * fw + l) cw = Inr s1"
    and f1: "full_pixels s1 = full_pixels s"
    and l1: "length (bmp_pixels s1) = length (bmp_pixels s)"
    and n1: "\<And>i. 0 \<le> i \<Longrightarrow> i < int (length (bmp_pixels s)) \<Longrightarrow>
                bmp_pixels s1 ! nat i =
                  (if y0 * cw \<le> i \<and> i < y0 * cw + cw
                   then full_pixels s ! nat ((t + y0) * fw + l + (i - y0 * cw))
                   else bmp_pixels s ! nat i)"
    using memcpy_row_nth [of cw "(t + y0) * fw + l" s "y0 * cw"] geo so d Cons.prems(2,3)
    by (auto simp: mult.commute)
  have "\<exists>s'. fold_result (\<lambda>y s. memcpy_row s (y * cw) ((t + y) * fw + l) cw) ys s1 = Inr s'
          \<and> full_pixels s' = full_pixels s1
          \<and> length (bmp_pixels s') = length (bmp_pixels s1)
          \<and> (\<forall>y x. 0 \<le> y \<and> y < chh \<and> 0 \<le> x \<and> x < cw \<longrightarrow>
                bmp_pixels s' ! nat (y * cw + x) =
                  (if y \<in> set ys then full_pixels s1 ! nat ((t + y) * fw + l + x)
                   else bmp_pixels s1 ! nat (y * cw + x)))"
    using Cons.prems f1 l1 by (intro Cons.IH) auto
  then obtain s' where s': "fold_result (\<lambda>y s. memcpy_row s (y * cw) ((t + y) * fw + l) cw) ys s1 = Inr s'"
    and f': "full_pixels s' = full_pixels s1"
    and l': "length (bmp_pixels s') = length (bmp_pixels s1)"
    and n': "\<And>y x. 0 \<le> y \<Longrightarrow> y < chh \<Longrightarrow> 0 \<le> x \<Longrightarrow> x < cw \<Longrightarrow>
                bmp_pixels s' ! nat (y * cw + x) =
                  (if y \<in> set ys then full_pixels s1 ! nat ((t + y) * fw + l + x)
                   else bmp_pixels s1 ! nat (y * cw + x))"
    by blast
  have "bmp_pixels s' ! nat (y * cw + x) =
          (if y \<in> set (y0 # ys) then full_pixels s ! nat ((t + y) * fw + l + x)
           else bmp_pixels s ! nat (y * cw + x))"
    if yx: "0 \<le> y" "y < chh" "0 \<le> x" "x < cw" for y x
  proof (cases "y \<in> set ys")
    case True
    with n' [OF yx] f1 show ?thesis by simp
  next
    case False
    have rng: "0 \<le> y * cw + x \<and> y * cw + x < int (length (bmp_pixels s))"
      using offset_bound [of "x + 1" cw y chh] offset_bound [of x cw y chh] yx Cons.prems(3)
      by (simp add: algebra_simps)
    have "bmp_pixels s' ! nat (y * cw + x) = bmp_pixels s1 ! nat (y * cw + x)"
      using n' [OF yx] False by simp
    also have "\<dots> = (if y0 * cw \<le> y * cw + x \<and> y * cw + x < y0 * cw + cw
                   then full_pixels s ! nat ((t + y0) * fw + l + (y * cw + x - y0 * cw))
                   else bmp_pixels s ! nat (y * cw + x))"
      using rng by (intro n1) auto
    also have "\<dots> = (if y = y0 then full_pixels s ! nat ((t + y) * fw + l + x)
                   else bmp_pixels s ! nat (y * cw + x))"
      using row_of_offset [of x cw y0 y] yx by auto
    finally show ?thesis using False by simp
  qed
  with s1 s' f' f1 l' l1 show ?case by simp
qed

section \<open>The claims\<close>

subsection \<open>C1: the pixel written back\<close>

text \<open>Claim C1 says that every updated pixel is written back as the packed
  \<open>(out_a, out_r, out_g, out_b)\<close> with each colour channel equal to
  \<open>(src_c * src_alpha + dst_c * dst_a * inv / 255) / out_a\<close>. The alpha channel is as
  claimed (\<open>blend_pixel_channels\<close>, \<open>out_alpha_unat\<close>). A colour channel is the low
  byte of the claimed quotient (\<open>out_channel_unat\<close>), and the quotient can exceed 255:
  the second term of the numerator is divided by 255 after the multiplication by the
  channel, the second term of \<open>out_a\<close> before it. Two 1 x 1 fragments of coverage 254
  and tint \<open>0xFFFFFF00\<close> (white, fully opaque tint) on a zeroed 1 x 1 canvas: the first
  leaves the pixel \<open>0xFEFFFFFF\<close>; for the second \<open>src_alpha = 254\<close>, \<open>inv = 1\<close>,
  \<open>dst_a = 254\<close>, \<open>out_a = 254\<close>, and each colour quotient is
  \<open>(255 * 254 + 255 * 254 * 1 / 255) / 254 = 256\<close>, of which the code stores the low
  byte 0: white over white is written back as black, \<open>0xFE000000\<close>.\<close>

theorem blend_channel_wraps:
  "blend_ass_image [0] 1 1
     [\<lparr>w = 1, h = 1, stride = 1, bitmap = [254], color = 0xFFFFFF00, dst_x = 0, dst_y = 0\<rparr>]
     = Inr [0xFEFFFFFF]
   \<and> blend_ass_image [0] 1 1
     [\<lparr>w = 1, h = 1, stride = 1, bitmap = [254], color = 0xFFFFFF00, dst_x = 0, dst_y = 0\<rparr>,
      \<lparr>w = 1, h = 1, stride = 1, bitmap = [254], color = 0xFFFFFF00, dst_x = 0, dst_y = 0\<rparr>]
     = Inr [0xFE000000]
   \<and> final_alpha 254 0 = 254
   \<and> blend_pixel 0xFF 0xFF 0xFF 254 0xFEFFFFFF = 0xFE000000
   \<and> unat (out_alpha 254 (px_a 0xFEFFFFFF)) = 254
   \<and> (255 * 254 + unat (px_r 0xFEFFFFFF) * unat (px_a 0xFEFFFFFF) * (255 - 254) div 255)
        div unat (out_alpha 254 (px_a 0xFEFFFFFF)) = (256 :: nat)
   \<and> unat (px_r 0xFE000000) = 0"
  by (simp add: blend_ass_image_def blend_image_def blend_row_def blend_col_def
      load_bitmap_def canvas_index_def final_alpha_def blend_pixel_def Let_def
      img_r_def img_g_def img_b_def img_a_def
      px_a_def px_r_def px_g_def px_b_def out_alpha_def out_channel_def pack_argb_def)

subsection \<open>C2: the bounding box is the clamped fold of the raw extents\<close>

text \<open>Claim C2 says that \<open>compute_bounding_box\<close>, for every fragment sequence, folds the
  raw extent \<open>(dst_x, dst_y, dst_x + w, dst_y + h)\<close> of every fragment with positive
  width and height and clamps the result, which is \<open>bbox_spec\<close>. The code computes the
  two sums in 32-bit \<open>int\<close>. A fragment of width 2147483647 at \<open>dst_x = 1\<close> on a
  4 x 4 canvas has the right edge 2147483648, which the claim clamps to 4; in the code
  the sum is -2147483648, \<open>right\<close> stays 0 and the result is \<open>(1, 0, 0, 1)\<close>.\<close>

theorem bounding_box_sum_wraps:
  "compute_bounding_box
     [\<lparr>w = 2147483647, h = 1, stride = 2147483647, bitmap = [], color = 0,
       dst_x = 1, dst_y = 0\<rparr>] 4 4
     = \<lparr>out_left = 1, out_top = 0, out_right = 0, out_bottom = 1\<rparr>
   \<and> bbox_spec
     [\<lparr>w = 2147483647, h = 1, stride = 2147483647, bitmap = [], color = 0,
       dst_x = 1, dst_y = 0\<rparr>] 4 4
     = \<lparr>out_left = 1, out_top = 0, out_right = 4, out_bottom = 1\<rparr>
   \<and> compute_bounding_box
     [\<lparr>w = 2147483647, h = 1, stride = 2147483647, bitmap = [], color = 0,
       dst_x = 1, dst_y = 0\<rparr>] 4 4
     \<noteq> bbox_spec
     [\<lparr>w = 2147483647, h = 1, stride = 2147483647, bitmap = [], color = 0,
       dst_x = 1, dst_y = 0\<rparr>] 4 4"
  by (simp add: compute_bounding_box_def bbox_spec_def bbox_step_def int32_def)

text \<open>Claim C2 as amended: for every fragment sequence in which the sums \<open>dst_x + w\<close>
  and \<open>dst_y + h\<close> of each fragment with positive width and height are in the range of
  a 32-bit \<open>int\<close>, and for all canvas dimensions, \<open>compute_bounding_box\<close> starts from
  \<open>(canvas_w, canvas_h, 0, 0)\<close>, folds the raw extent
  \<open>(dst_x, dst_y, dst_x + w, dst_y + h)\<close> of every fragment with positive width and
  height by component-wise min and max, without clipping a fragment, and then clamps
  left and top to be at least 0 and right and bottom to be at most the canvas
  dimensions: it equals \<open>bbox_spec\<close>. When the sequence is empty or every fragment is
  degenerate, the result is exactly \<open>(canvas_w, canvas_h, 0, 0)\<close>, the canvas
  dimensions being nonnegative.\<close>

theorem compute_bounding_box_is_clamped_fold:
  "((\<forall>img \<in> set imgs. 0 < w img \<and> 0 < h img \<longrightarrow>
        in_int32 (dst_x img + w img) \<and> in_int32 (dst_y img + h img))
      \<longrightarrow> compute_bounding_box imgs cw ch = bbox_spec imgs cw ch) \<and>
   (0 \<le> cw \<and> 0 \<le> ch \<and> (\<forall>img \<in> set imgs. w img \<le> 0 \<or> h img \<le> 0)
      \<longrightarrow> compute_bounding_box imgs cw ch = \<lparr>out_left = cw, out_top = ch, out_right = 0, out_bottom = 0\<rparr>)"
proof
  show "(\<forall>img \<in> set imgs. 0 < w img \<and> 0 < h img \<longrightarrow>
        in_int32 (dst_x img + w img) \<and> in_int32 (dst_y img + h img))
      \<longrightarrow> compute_bounding_box imgs cw ch = bbox_spec imgs cw ch"
  proof
    assume fits: "\<forall>img \<in> set imgs. 0 < w img \<and> 0 < h img \<longrightarrow>
        in_int32 (dst_x img + w img) \<and> in_int32 (dst_y img + h img)"
    show "compute_bounding_box imgs cw ch = bbox_spec imgs cw ch"
      unfolding compute_bounding_box_def bbox_spec_def fold_bbox_step_filter [OF fits]
      by (auto simp: min_def max_def split: prod.splits)
  qed
  show "0 \<le> cw \<and> 0 \<le> ch \<and> (\<forall>img \<in> set imgs. w img \<le> 0 \<or> h img \<le> 0)
      \<longrightarrow> compute_bounding_box imgs cw ch = \<lparr>out_left = cw, out_top = ch, out_right = 0, out_bottom = 0\<rparr>"
    by (auto simp: compute_bounding_box_def fold_bbox_step_degenerate)
qed

text \<open>A fragment that sticks out of a 4 x 4 canvas on the left and at the bottom,
  followed by a fragment of width 0; and the fragment of width 0 alone, which leaves
  the canonical empty rectangle.\<close>

theorem compute_bounding_box_is_clamped_fold_witness:
  "compute_bounding_box
     [\<lparr>w = 3, h = 9, stride = 3, bitmap = [], color = 0, dst_x = - 1, dst_y = 2\<rparr>,
      \<lparr>w = 0, h = 7, stride = 0, bitmap = [], color = 0, dst_x = 5, dst_y = 5\<rparr>] 4 4
     = bbox_spec
     [\<lparr>w = 3, h = 9, stride = 3, bitmap = [], color = 0, dst_x = - 1, dst_y = 2\<rparr>,
      \<lparr>w = 0, h = 7, stride = 0, bitmap = [], color = 0, dst_x = 5, dst_y = 5\<rparr>] 4 4
   \<and> bbox_spec
     [\<lparr>w = 3, h = 9, stride = 3, bitmap = [], color = 0, dst_x = - 1, dst_y = 2\<rparr>,
      \<lparr>w = 0, h = 7, stride = 0, bitmap = [], color = 0, dst_x = 5, dst_y = 5\<rparr>] 4 4
     = \<lparr>out_left = 0, out_top = 2, out_right = 2, out_bottom = 4\<rparr>
   \<and> compute_bounding_box
     [\<lparr>w = 0, h = 7, stride = 0, bitmap = [], color = 0, dst_x = 5, dst_y = 5\<rparr>] 4 4
     = \<lparr>out_left = 4, out_top = 4, out_right = 0, out_bottom = 0\<rparr>"
proof (intro conjI)
  show "compute_bounding_box
     [\<lparr>w = 3, h = 9, stride = 3, bitmap = [], color = 0, dst_x = - 1, dst_y = 2\<rparr>,
      \<lparr>w = 0, h = 7, stride = 0, bitmap = [], color = 0, dst_x = 5, dst_y = 5\<rparr>] 4 4
     = bbox_spec
     [\<lparr>w = 3, h = 9, stride = 3, bitmap = [], color = 0, dst_x = - 1, dst_y = 2\<rparr>,
      \<lparr>w = 0, h = 7, stride = 0, bitmap = [], color = 0, dst_x = 5, dst_y = 5\<rparr>] 4 4"
    using compute_bounding_box_is_clamped_fold
      [of "[\<lparr>w = 3, h = 9, stride = 3, bitmap = [], color = 0, dst_x = - 1, dst_y = 2\<rparr>,
            \<lparr>w = 0, h = 7, stride = 0, bitmap = [], color = 0, dst_x = 5, dst_y = 5\<rparr>]" 4 4,
       THEN conjunct1]
    by (simp add: in_int32_def)
  show "bbox_spec
     [\<lparr>w = 3, h = 9, stride = 3, bitmap = [], color = 0, dst_x = - 1, dst_y = 2\<rparr>,
      \<lparr>w = 0, h = 7, stride = 0, bitmap = [], color = 0, dst_x = 5, dst_y = 5\<rparr>] 4 4
     = \<lparr>out_left = 0, out_top = 2, out_right = 2, out_bottom = 4\<rparr>"
    by (simp add: bbox_spec_def)
  show "compute_bounding_box
     [\<lparr>w = 0, h = 7, stride = 0, bitmap = [], color = 0, dst_x = 5, dst_y = 5\<rparr>] 4 4
     = \<lparr>out_left = 4, out_top = 4, out_right = 0, out_bottom = 0\<rparr>"
    using compute_bounding_box_is_clamped_fold
      [of "[\<lparr>w = 0, h = 7, stride = 0, bitmap = [], color = 0, dst_x = 5, dst_y = 5\<rparr>]" 4 4,
       THEN conjunct2]
    by simp
qed

subsection \<open>C3: a fragment of coverage zero\<close>

text \<open>Claim C3 says that removing a fragment whose bitmap bytes are all zero leaves both the
  composited canvas and the bounding box identical. The canvas part holds. The bounding
  box part does not: \<open>compute_bounding_box\<close> never reads a bitmap, so a 2 x 2 fragment
  of coverage zero at the origin of a 4 x 4 canvas still makes the box \<open>(0, 0, 2, 2)\<close>.\<close>

theorem zero_coverage_fragment_in_bounding_box:
  "compute_bounding_box
     [\<lparr>w = 2, h = 2, stride = 2, bitmap = [0, 0, 0, 0], color = 0xFF000000,
       dst_x = 0, dst_y = 0\<rparr>] 4 4
     = \<lparr>out_left = 0, out_top = 0, out_right = 2, out_bottom = 2\<rparr>
   \<and> compute_bounding_box [] 4 4
     = \<lparr>out_left = 4, out_top = 4, out_right = 0, out_bottom = 0\<rparr>
   \<and> compute_bounding_box
     [\<lparr>w = 2, h = 2, stride = 2, bitmap = [0, 0, 0, 0], color = 0xFF000000,
       dst_x = 0, dst_y = 0\<rparr>] 4 4
     \<noteq> compute_bounding_box [] 4 4"
  by (simp add: compute_bounding_box_def bbox_step_def int32_def)

text \<open>Claim C3 as amended: removing a fragment whose bitmap bytes are all zero (and whose
  bitmap covers its \<open>w\<close> x \<open>h\<close> pixels, \<open>bitmap_ok\<close>) from any place of a fragment
  sequence leaves the result of the compositor identical, on every canvas. The bounding
  box does not depend on the bitmap of any fragment; removing a fragment leaves it
  identical when the fragment is degenerate (\<open>w \<le> 0\<close> or \<open>h \<le> 0\<close>).\<close>

theorem zero_coverage_fragment_removal:
  "((\<forall>b \<in> set (bitmap img). b = 0) \<and> bitmap_ok img \<longrightarrow>
      blend_ass_image pixels cw ch (xs @ img # ys) = blend_ass_image pixels cw ch (xs @ ys)) \<and>
   (w img \<le> 0 \<or> h img \<le> 0 \<longrightarrow>
      compute_bounding_box (xs @ img # ys) cw ch = compute_bounding_box (xs @ ys) cw ch) \<and>
   compute_bounding_box (xs @ img\<lparr>bitmap := bm\<rparr> # ys) cw ch
     = compute_bounding_box (xs @ img # ys) cw ch"
proof (intro conjI impI)
  assume "(\<forall>b \<in> set (bitmap img). b = 0) \<and> bitmap_ok img"
  then have "blend_image cw ch img t = Inr t" for t
    by (intro blend_image_zero) auto
  then show "blend_ass_image pixels cw ch (xs @ img # ys) = blend_ass_image pixels cw ch (xs @ ys)"
    by (simp add: blend_ass_image_def fold_result_append split: sum.splits)
next
  assume "w img \<le> 0 \<or> h img \<le> 0"
  then show "compute_bounding_box (xs @ img # ys) cw ch = compute_bounding_box (xs @ ys) cw ch"
    by (simp only: compute_bounding_box_def bbox_degenerate_remove)
next
  show "compute_bounding_box (xs @ img\<lparr>bitmap := bm\<rparr> # ys) cw ch
          = compute_bounding_box (xs @ img # ys) cw ch"
    by (simp add: compute_bounding_box_def bbox_step_ignores_bitmap)
qed

text \<open>The 2 x 2 fragment of coverage zero, removed from between two fragments; and a
  fragment of width 0.\<close>

theorem zero_coverage_fragment_removal_witness:
  "blend_ass_image [0, 0, 0, 0] 2 2
     [\<lparr>w = 1, h = 1, stride = 1, bitmap = [255], color = 0xFF000000, dst_x = 0, dst_y = 0\<rparr>,
      \<lparr>w = 2, h = 2, stride = 2, bitmap = [0, 0, 0, 0], color = 0x00FF0000, dst_x = 0, dst_y = 0\<rparr>,
      \<lparr>w = 1, h = 1, stride = 1, bitmap = [255], color = 0x0000FF00, dst_x = 1, dst_y = 1\<rparr>]
   = blend_ass_image [0, 0, 0, 0] 2 2
     [\<lparr>w = 1, h = 1, stride = 1, bitmap = [255], color = 0xFF000000, dst_x = 0, dst_y = 0\<rparr>,
      \<lparr>w = 1, h = 1, stride = 1, bitmap = [255], color = 0x0000FF00, dst_x = 1, dst_y = 1\<rparr>]
   \<and> compute_bounding_box
     [\<lparr>w = 1, h = 1, stride = 1, bitmap = [255], color = 0xFF000000, dst_x = 0, dst_y = 0\<rparr>,
      \<lparr>w = 0, h = 2, stride = 2, bitmap = [0, 0, 0, 0], color = 0x00FF0000, dst_x = 0, dst_y = 0\<rparr>] 2 2
   = compute_bounding_box
     [\<lparr>w = 1, h = 1, stride = 1, bitmap = [255], color = 0xFF000000, dst_x = 0, dst_y = 0\<rparr>] 2 2"
proof
  show "blend_ass_image [0, 0, 0, 0] 2 2
     [\<lparr>w = 1, h = 1, stride = 1, bitmap = [255], color = 0xFF000000, dst_x = 0, dst_y = 0\<rparr>,
      \<lparr>w = 2, h = 2, stride = 2, bitmap = [0, 0, 0, 0], color = 0x00FF0000, dst_x = 0, dst_y = 0\<rparr>,
      \<lparr>w = 1, h = 1, stride = 1, bitmap = [255], color = 0x0000FF00, dst_x = 1, dst_y = 1\<rparr>]
   = blend_ass_image [0, 0, 0, 0] 2 2
     [\<lparr>w = 1, h = 1, stride = 1, bitmap = [255], color = 0xFF000000, dst_x = 0, dst_y = 0\<rparr>,
      \<lparr>w = 1, h = 1, stride = 1, bitmap = [255], color = 0x0000FF00, dst_x = 1, dst_y = 1\<rparr>]"
    using zero_coverage_fragment_removal
      [of "\<lparr>w = 2, h = 2, stride = 2, bitmap = [0, 0, 0, 0], color = 0x00FF0000, dst_x = 0, dst_y = 0\<rparr>"
          "[0, 0, 0, 0]" 2 2
          "[\<lparr>w = 1, h = 1, stride = 1, bitmap = [255], color = 0xFF000000, dst_x = 0, dst_y = 0\<rparr>]"
          "[\<lparr>w = 1, h = 1, stride = 1, bitmap = [255], color = 0x0000FF00, dst_x = 1, dst_y = 1\<rparr>]",
       THEN conjunct1]
    by (simp add: bitmap_ok_def)
  show "compute_bounding_box
     [\<lparr>w = 1, h = 1, stride = 1, bitmap = [255], color = 0xFF000000, dst_x = 0, dst_y = 0\<rparr>,
      \<lparr>w = 0, h = 2, stride = 2, bitmap = [0, 0, 0, 0], color = 0x00FF0000, dst_x = 0, dst_y = 0\<rparr>] 2 2
   = compute_bounding_box
     [\<lparr>w = 1, h = 1, stride = 1, bitmap = [255], color = 0xFF000000, dst_x = 0, dst_y = 0\<rparr>] 2 2"
    using zero_coverage_fragment_removal
      [of "\<lparr>w = 0, h = 2, stride = 2, bitmap = [0, 0, 0, 0], color = 0x00FF0000, dst_x = 0, dst_y = 0\<rparr>"
          "[]" 2 2
          "[\<lparr>w = 1, h = 1, stride = 1, bitmap = [255], color = 0xFF000000, dst_x = 0, dst_y = 0\<rparr>]"
          "[]",
       THEN conjunct2, THEN conjunct1]
    by simp
qed

subsection \<open>C4: every access lies in the canvas\<close>

text \<open>Claim C4: on a canvas buffer of \<open>canvas_w * canvas_h\<close> pixels, and for every fragment
  sequence (negative \<open>dst_x\<close> or \<open>dst_y\<close> and extents past the canvas included), the
  compositor never touches a canvas cell outside \<open>[0, canvas_w) \<times> [0, canvas_h)\<close>: the
  guard of \<open>canvas_index\<close> never fails, because rows and columns are clipped first. And
  fragment geometry is never an error: when every bitmap covers its fragment's pixels,
  the compositor returns a canvas of the same size.\<close>

theorem blend_stays_in_canvas:
  assumes "int (length pixels) = cw * ch"
  shows "blend_ass_image pixels cw ch imgs \<noteq> Inl Canvas_Fault \<and>
         ((\<forall>img \<in> set imgs. bitmap_ok img) \<longrightarrow>
            (\<exists>pixels'. blend_ass_image pixels cw ch imgs = Inr pixels'
                \<and> length pixels' = length pixels))"
proof
  show "blend_ass_image pixels cw ch imgs \<noteq> Inl Canvas_Fault"
    unfolding blend_ass_image_def
  proof (rule fold_result_no_fault [where P = "\<lambda>t. length t = length pixels"])
    show "length pixels = length pixels" by simp
  next
    fix img :: ASS_Image and t :: "u32 list"
    assume "length t = length pixels"
    with assms show "blend_image cw ch img t \<noteq> Inl Canvas_Fault"
      by (intro blend_image_no_canvas_fault) simp
  next
    fix img :: ASS_Image and t t' :: "u32 list"
    assume "length t = length pixels" and "blend_image cw ch img t = Inr t'"
    then show "length t' = length pixels" by (simp add: blend_image_length)
  qed
  show "(\<forall>img \<in> set imgs. bitmap_ok img) \<longrightarrow>
            (\<exists>pixels'. blend_ass_image pixels cw ch imgs = Inr pixels'
                \<and> length pixels' = length pixels)"
  proof
    assume ok: "\<forall>img \<in> set imgs. bitmap_ok img"
    show "\<exists>pixels'. blend_ass_image pixels cw ch imgs = Inr pixels'
                \<and> length pixels' = length pixels"
      unfolding blend_ass_image_def
    proof (rule fold_result_total [where P = "\<lambda>t. length t = length pixels"])
      show "length pixels = length pixels" by simp
    next
      fix img :: ASS_Image and t :: "u32 list"
      assume "img \<in> set imgs" and t: "length t = length pixels"
      with ok assms have "\<exists>t'. blend_image cw ch img t = Inr t' \<and> length t' = length t"
        by (intro blend_image_total) auto
      with t show "\<exists>t'. blend_image cw ch img t = Inr t' \<and> length t' = length pixels"
        by simp
    qed
  qed
qed

text \<open>A 3 x 1 fragment at \<open>dst_x = -1\<close> on a canvas of width 2, the example of the
  specification, and a fragment wholly outside the canvas.\<close>

theorem blend_stays_in_canvas_witness:
  "blend_ass_image [0, 0] 2 1
     [\<lparr>w = 3, h = 1, stride = 3, bitmap = [255, 255, 255], color = 0xFF000000,
       dst_x = - 1, dst_y = 0\<rparr>,
      \<lparr>w = 1, h = 2, stride = 1, bitmap = [255, 255], color = 0xFF000000,
       dst_x = 7, dst_y = - 5\<rparr>] \<noteq> Inl Canvas_Fault
   \<and> (\<exists>pixels'. blend_ass_image [0, 0] 2 1
     [\<lparr>w = 3, h = 1, stride = 3, bitmap = [255, 255, 255], color = 0xFF000000,
       dst_x = - 1, dst_y = 0\<rparr>,
      \<lparr>w = 1, h = 2, stride = 1, bitmap = [255, 255], color = 0xFF000000,
       dst_x = 7, dst_y = - 5\<rparr>] = Inr pixels' \<and> length pixels' = 2)"
  using blend_stays_in_canvas [of "[0, 0]" 2 1
     "[\<lparr>w = 3, h = 1, stride = 3, bitmap = [255, 255, 255], color = 0xFF000000,
       dst_x = - 1, dst_y = 0\<rparr>,
      \<lparr>w = 1, h = 2, stride = 1, bitmap = [255, 255], color = 0xFF000000,
       dst_x = 7, dst_y = - 5\<rparr>]"]
  by (auto simp: bitmap_ok_def)

subsection \<open>C5: the output alpha fits a byte\<close>

text \<open>Claim C5: for \<open>src_alpha\<close> in \<open>[0, 255]\<close> and every byte \<open>dst_a\<close>, with
  \<open>inv = 255 - src_alpha\<close>, the sum \<open>src_alpha + dst_a * inv / 255\<close> never exceeds 255;
  the \<open>uint32_t\<close> arithmetic of the code computes exactly that sum, and the narrowing
  to \<open>uint8_t\<close> that gives \<open>out_a\<close> loses nothing. (The \<open>src_alpha\<close> of the code is
  \<open>final_alpha\<close>, in that range by \<open>final_alpha_le\<close>.)\<close>

theorem out_alpha_fits_byte:
  assumes "unat fa \<le> 255"
  shows "unat fa + unat dst_a * (255 - unat fa) div 255 \<le> 255
         \<and> unat (fa + ucast dst_a * (255 - fa) div 255 :: u32)
             = unat fa + unat dst_a * (255 - unat fa) div 255
         \<and> unat (out_alpha fa dst_a) = unat fa + unat dst_a * (255 - unat fa) div 255"
  using out_alpha_sum [OF assms, of dst_a] out_alpha_unat [OF assms, of dst_a] by simp

text \<open>The largest inputs: \<open>src_alpha = 255\<close> over \<open>dst_a = 255\<close> gives 255.\<close>

theorem out_alpha_fits_byte_witness:
  "unat (255 :: u32) + unat (255 :: u8) * (255 - unat (255 :: u32)) div 255 \<le> 255
   \<and> unat (out_alpha 255 255) = 255 \<and> unat (out_alpha 200 100) = 221"
  using out_alpha_fits_byte [of 255 255] out_alpha_fits_byte [of 200 100] by simp

subsection \<open>C6: the range of the bounding box\<close>

text \<open>Claim C6 says \<open>0 \<le> left \<le> right \<le> canvas_w\<close> and \<open>0 \<le> top \<le> bottom \<le> canvas_h\<close>
  for every fragment sequence. For the empty sequence on a 4 x 4 canvas the result is
  the canonical empty rectangle \<open>(4, 4, 0, 0)\<close>, whose left exceeds its right. And for
  the one fragment of width 2147483647 at \<open>dst_x = 1\<close> the sum \<open>dst_x + w\<close> leaves the
  32 bits of \<open>int\<close>: the result is \<open>(1, 0, 0, 1)\<close>, left again above right.\<close>

theorem empty_bounding_box_is_inverted:
  "\<not> out_left (compute_bounding_box [] 4 4) \<le> out_right (compute_bounding_box [] 4 4)
   \<and> \<not> out_left (compute_bounding_box
           [\<lparr>w = 2147483647, h = 1, stride = 2147483647, bitmap = [], color = 0,
             dst_x = 1, dst_y = 0\<rparr>] 4 4)
         \<le> out_right (compute_bounding_box
           [\<lparr>w = 2147483647, h = 1, stride = 2147483647, bitmap = [], color = 0,
             dst_x = 1, dst_y = 0\<rparr>] 4 4)"
  by (simp add: compute_bounding_box_def bbox_step_def int32_def)

text \<open>Claim C6 as amended: for nonnegative canvas dimensions and every fragment sequence,
  each of \<open>left\<close> and \<open>right\<close> lies in \<open>[0, canvas_w]\<close> and each of \<open>top\<close> and \<open>bottom\<close>
  in \<open>[0, canvas_h]\<close>; and \<open>left \<le> right\<close> and \<open>top \<le> bottom\<close> hold when the sequence
  has at least one fragment of positive width and height whose sums \<open>dst_x + w\<close> and
  \<open>dst_y + h\<close> are in the range of a 32-bit \<open>int\<close>.\<close>

theorem bounding_box_in_canvas:
  assumes "0 \<le> cw" and "0 \<le> ch"
  shows "0 \<le> out_left (compute_bounding_box imgs cw ch) \<and>
         out_left (compute_bounding_box imgs cw ch) \<le> cw \<and>
         0 \<le> out_right (compute_bounding_box imgs cw ch) \<and>
         out_right (compute_bounding_box imgs cw ch) \<le> cw \<and>
         0 \<le> out_top (compute_bounding_box imgs cw ch) \<and>
         out_top (compute_bounding_box imgs cw ch) \<le> ch \<and>
         0 \<le> out_bottom (compute_bounding_box imgs cw ch) \<and>
         out_bottom (compute_bounding_box imgs cw ch) \<le> ch \<and>
         ((\<exists>img \<in> set imgs. 0 < w img \<and> 0 < h img
              \<and> in_int32 (dst_x img + w img) \<and> in_int32 (dst_y img + h img)) \<longrightarrow>
            out_left (compute_bounding_box imgs cw ch) \<le> out_right (compute_bounding_box imgs cw ch) \<and>
            out_top (compute_bounding_box imgs cw ch) \<le> out_bottom (compute_bounding_box imgs cw ch))"
proof -
  obtain l t r b where f: "fold bbox_step imgs (cw, ch, 0, 0) = (l, t, r, b)"
    by (cases "fold bbox_step imgs (cw, ch, 0, 0)") auto
  from fold_bbox_step_mono [OF f] have m: "l \<le> cw" "t \<le> ch" "0 \<le> r" "0 \<le> b" by auto
  have n: "(\<exists>img \<in> set imgs. 0 < w img \<and> 0 < h img
              \<and> in_int32 (dst_x img + w img) \<and> in_int32 (dst_y img + h img))
            \<longrightarrow> l < r \<and> t < b"
    using fold_bbox_step_nonempty [OF f] by blast
  show ?thesis
    using assms m n by (simp add: compute_bounding_box_def f) linarith
qed

text \<open>A fragment that sticks out of a 4 x 4 canvas on the left and at the bottom, after
  a fragment whose right edge leaves the 32 bits.\<close>

theorem bounding_box_in_canvas_witness:
  "compute_bounding_box
     [\<lparr>w = 2147483647, h = 1, stride = 2147483647, bitmap = [], color = 0,
       dst_x = 1, dst_y = 0\<rparr>,
      \<lparr>w = 3, h = 9, stride = 3, bitmap = [], color = 0, dst_x = - 1, dst_y = 2\<rparr>] 4 4
     = \<lparr>out_left = 0, out_top = 0, out_right = 2, out_bottom = 4\<rparr>
   \<and> out_left (compute_bounding_box
     [\<lparr>w = 2147483647, h = 1, stride = 2147483647, bitmap = [], color = 0,
       dst_x = 1, dst_y = 0\<rparr>,
      \<lparr>w = 3, h = 9, stride = 3, bitmap = [], color = 0, dst_x = - 1, dst_y = 2\<rparr>] 4 4)
     \<le> out_right (compute_bounding_box
     [\<lparr>w = 2147483647, h = 1, stride = 2147483647, bitmap = [], color = 0,
       dst_x = 1, dst_y = 0\<rparr>,
      \<lparr>w = 3, h = 9, stride = 3, bitmap = [], color = 0, dst_x = - 1, dst_y = 2\<rparr>] 4 4)"
  using bounding_box_in_canvas [of 4 4
     "[\<lparr>w = 2147483647, h = 1, stride = 2147483647, bitmap = [], color = 0,
        dst_x = 1, dst_y = 0\<rparr>,
       \<lparr>w = 3, h = 9, stride = 3, bitmap = [], color = 0, dst_x = - 1, dst_y = 2\<rparr>]"]
  by (simp add: compute_bounding_box_def bbox_step_def int32_def in_int32_def)

subsection \<open>C7: the empty fragment sequence\<close>

text \<open>Claim C7: for an empty fragment sequence \<open>compute_bounding_box\<close> returns the canonical
  empty rectangle \<open>(canvas_w, canvas_h, 0, 0)\<close> (the canvas dimensions being
  nonnegative), and the compositor returns the zero-initialised canvas as it is, every
  pixel zero.\<close>

theorem empty_sequence:
  assumes "0 \<le> cw" and "0 \<le> ch"
  shows "compute_bounding_box [] cw ch
           = \<lparr>out_left = cw, out_top = ch, out_right = 0, out_bottom = 0\<rparr>
         \<and> blend_ass_image (replicate (nat (cw * ch)) 0) cw ch []
           = Inr (replicate (nat (cw * ch)) 0)"
  using assms by (simp add: compute_bounding_box_def blend_ass_image_def)

theorem empty_sequence_witness:
  "compute_bounding_box [] 3 2 = \<lparr>out_left = 3, out_top = 2, out_right = 0, out_bottom = 0\<rparr>
   \<and> blend_ass_image [0, 0, 0, 0, 0, 0] 3 2 [] = Inr [0, 0, 0, 0, 0, 0]"
  using empty_sequence [of 3 2] by (simp add: eval_nat_numeral)

subsection \<open>C8: the order of the fragments matters\<close>

text \<open>Claim C8: there are two overlapping semi-transparent fragments whose composition on a
  zeroed canvas depends on their order. Both cover the one pixel of a 1 x 1 canvas with
  full coverage and a tint of inverted alpha \<open>0x80\<close>, one red and one blue: red then
  blue gives \<open>0xBE5500AA\<close>, blue then red \<open>0xBEAA0055\<close>.\<close>

theorem blend_order_matters:
  "blend_ass_image [0] 1 1
     [\<lparr>w = 1, h = 1, stride = 1, bitmap = [255], color = 0xFF000080, dst_x = 0, dst_y = 0\<rparr>,
      \<lparr>w = 1, h = 1, stride = 1, bitmap = [255], color = 0x0000FF80, dst_x = 0, dst_y = 0\<rparr>]
     = Inr [0xBE5500AA]
   \<and> blend_ass_image [0] 1 1
     [\<lparr>w = 1, h = 1, stride = 1, bitmap = [255], color = 0x0000FF80, dst_x = 0, dst_y = 0\<rparr>,
      \<lparr>w = 1, h = 1, stride = 1, bitmap = [255], color = 0xFF000080, dst_x = 0, dst_y = 0\<rparr>]
     = Inr [0xBEAA0055]
   \<and> blend_ass_image [0] 1 1
     [\<lparr>w = 1, h = 1, stride = 1, bitmap = [255], color = 0xFF000080, dst_x = 0, dst_y = 0\<rparr>,
      \<lparr>w = 1, h = 1, stride = 1, bitmap = [255], color = 0x0000FF80, dst_x = 0, dst_y = 0\<rparr>]
     \<noteq> blend_ass_image [0] 1 1
     [\<lparr>w = 1, h = 1, stride = 1, bitmap = [255], color = 0x0000FF80, dst_x = 0, dst_y = 0\<rparr>,
      \<lparr>w = 1, h = 1, stride = 1, bitmap = [255], color = 0xFF000080, dst_x = 0, dst_y = 0\<rparr>]"
  by (simp add: blend_ass_image_def blend_image_def blend_row_def blend_col_def
      load_bitmap_def canvas_index_def final_alpha_def blend_pixel_def Let_def
      img_r_def img_g_def img_b_def img_a_def
      px_a_def px_r_def px_g_def px_b_def out_alpha_def out_channel_def pack_argb_def)

subsection \<open>C9: cropping and placing back\<close>

text \<open>Claim C9: for every canvas of \<open>frame_w * frame_h\<close> pixels and every non-empty box
  \<open>(left, top, right, bottom)\<close> inside it, the crop copy into a bitmap of
  \<open>(right - left) * (bottom - top)\<close> pixels succeeds and leaves the canvas as it was;
  and the cropped pixels, placed back at \<open>(left, top)\<close> on a zeroed canvas of the same
  dimensions, give the original pixel at every cell inside the box and 0 at every cell
  outside it.\<close>

theorem crop_round_trip:
  assumes "int (length pixels) = fw * fh"
    and "0 \<le> l" "l < r" "r \<le> fw" "0 \<le> t" "t < b" "b \<le> fh"
    and "int (length dst) = (r - l) * (b - t)"
  shows "\<exists>dst'. copy_crop fw l t (r - l) (b - t) \<lparr>full_pixels = pixels, bmp_pixels = dst\<rparr>
                   = Inr \<lparr>full_pixels = pixels, bmp_pixels = dst'\<rparr>
           \<and> length dst' = length dst
           \<and> length (place_region dst' fw fh l t r b) = length pixels
           \<and> (\<forall>x y. 0 \<le> x \<and> x < fw \<and> 0 \<le> y \<and> y < fh \<longrightarrow>
                place_region dst' fw fh l t r b ! nat (y * fw + x) =
                  (if l \<le> x \<and> x < r \<and> t \<le> y \<and> y < b then pixels ! nat (y * fw + x) else 0))"
proof -
  let ?s = "\<lparr>full_pixels = pixels, bmp_pixels = dst\<rparr>"
  have "\<exists>s'. fold_result (\<lambda>y s. memcpy_row s (y * (r - l)) ((t + y) * fw + l) (r - l)) [0 .. b - t - 1] ?s = Inr s'
          \<and> full_pixels s' = full_pixels ?s
          \<and> length (bmp_pixels s') = length (bmp_pixels ?s)
          \<and> (\<forall>y x. 0 \<le> y \<and> y < b - t \<and> 0 \<le> x \<and> x < r - l \<longrightarrow>
                bmp_pixels s' ! nat (y * (r - l) + x) =
                  (if y \<in> set [0 .. b - t - 1] then full_pixels ?s ! nat ((t + y) * fw + l + x)
                   else bmp_pixels ?s ! nat (y * (r - l) + x)))"
    using assms by (intro copy_rows [where fh = fh]) auto
  then obtain s' where run: "copy_crop fw l t (r - l) (b - t) ?s = Inr s'"
    and f: "full_pixels s' = pixels"
    and len: "length (bmp_pixels s') = length dst"
    and nth: "\<And>y x. 0 \<le> y \<Longrightarrow> y < b - t \<Longrightarrow> 0 \<le> x \<Longrightarrow> x < r - l \<Longrightarrow>
                bmp_pixels s' ! nat (y * (r - l) + x) = pixels ! nat ((t + y) * fw + l + x)"
    by (auto simp: copy_crop_def)
  have s': "s' = \<lparr>full_pixels = pixels, bmp_pixels = bmp_pixels s'\<rparr>"
    using f by (cases s') simp
  have fw: "0 < fw" and fh: "0 < fh" using assms by auto
  have plen: "length (place_region (bmp_pixels s') fw fh l t r b) = length pixels"
    using assms(1) by (simp add: place_region_def)
  have pnth: "place_region (bmp_pixels s') fw fh l t r b ! nat (y * fw + x) =
                  (if l \<le> x \<and> x < r \<and> t \<le> y \<and> y < b then pixels ! nat (y * fw + x) else 0)"
    if xy: "0 \<le> x" "x < fw" "0 \<le> y" "y < fh" for x y
  proof -
    have rng: "0 \<le> y * fw + x \<and> y * fw + x < fw * fh"
      using offset_bound [of "x + 1" fw y fh] offset_bound [of x fw y fh] xy
      by (simp add: algebra_simps)
    then have i: "nat (y * fw + x) < nat (fw * fh)" by linarith
    have m: "(y * fw + x) mod fw = x" using xy by simp
    have dv: "(y * fw + x) div fw = y" using xy by simp
    have xm: "x mod fw = x" "x div fw = 0" using xy by simp_all
    have "place_region (bmp_pixels s') fw fh l t r b ! nat (y * fw + x) =
            (if l \<le> x \<and> x < r \<and> t \<le> y \<and> y < b
             then bmp_pixels s' ! nat ((y - t) * (r - l) + (x - l)) else 0)"
      using i rng by (simp add: place_region_def Let_def m dv xm)
    moreover have "bmp_pixels s' ! nat ((y - t) * (r - l) + (x - l)) = pixels ! nat (y * fw + x)"
      if "l \<le> x \<and> x < r \<and> t \<le> y \<and> y < b"
      using nth [of "y - t" "x - l"] that by simp
    ultimately show ?thesis by simp
  qed
  from run s' have "copy_crop fw l t (r - l) (b - t) ?s = Inr \<lparr>full_pixels = pixels, bmp_pixels = bmp_pixels s'\<rparr>"
    by simp
  with len plen pnth show ?thesis by blast
qed

text \<open>The right column of a 2 x 2 canvas.\<close>

theorem crop_round_trip_witness:
  "copy_crop 2 1 0 1 2 \<lparr>full_pixels = [1, 2, 3, 4], bmp_pixels = [0, 0]\<rparr>
     = Inr \<lparr>full_pixels = [1, 2, 3, 4], bmp_pixels = [2, 4]\<rparr>
   \<and> place_region [2, 4] 2 2 1 0 2 2 = [0, 2, 0, 4]
   \<and> (\<exists>dst'. copy_crop 2 1 0 (2 - 1) (2 - 0) \<lparr>full_pixels = [1, 2, 3, 4], bmp_pixels = [0, 0]\<rparr>
                   = Inr \<lparr>full_pixels = [1, 2, 3, 4], bmp_pixels = dst'\<rparr>
           \<and> length dst' = 2
           \<and> place_region dst' 2 2 1 0 2 2 ! nat (1 * 2 + 1) = [1, 2, 3, 4] ! nat (1 * 2 + 1)
           \<and> place_region dst' 2 2 1 0 2 2 ! nat (1 * 2 + 0) = 0)"
proof -
  have "copy_crop 2 1 0 1 2 \<lparr>full_pixels = [1, 2, 3, 4], bmp_pixels = [0, 0]\<rparr>
          = Inr \<lparr>full_pixels = [1, 2, 3, 4], bmp_pixels = [2, 4]\<rparr>"
    by (simp add: copy_crop_def memcpy_row_def upto.simps)
  moreover have "place_region [2, 4] 2 2 1 0 2 2 = [0, 2, 0, 4]"
    by (simp add: place_region_def Let_def upt_conv_Cons)
  moreover obtain dst' where
    "copy_crop 2 1 0 (2 - 1) (2 - 0) \<lparr>full_pixels = [1, 2, 3, 4], bmp_pixels = [0, 0]\<rparr>
       = Inr \<lparr>full_pixels = [1, 2, 3, 4], bmp_pixels = dst'\<rparr>"
    and "length dst' = length [0 :: u32, 0]"
    and q: "\<forall>x y. 0 \<le> x \<and> x < 2 \<and> 0 \<le> y \<and> y < 2 \<longrightarrow>
       place_region dst' 2 2 1 0 2 2 ! nat (y * 2 + x) =
         (if 1 \<le> x \<and> x < 2 \<and> 0 \<le> y \<and> y < 2 then [1, 2, 3, 4] ! nat (y * 2 + x) else 0)"
    using crop_round_trip [of "[1, 2, 3, 4]" 2 2 1 2 0 2 "[0, 0]"] by auto
  moreover have
    "place_region dst' 2 2 1 0 2 2 ! nat (1 * 2 + 1) = [1, 2, 3, 4] ! nat (1 * 2 + 1)"
    using q [rule_format, of 1 1] by simp
  moreover have "place_region dst' 2 2 1 0 2 2 ! nat (1 * 2 + 0) = 0"
    using q [rule_format, of 0 1] by simp
  ultimately show ?thesis by auto
qed

subsection \<open>C10: alpha never decreases\<close>

text \<open>Claim C10: for \<open>src_alpha\<close> in \<open>[1, 255]\<close> and every byte \<open>dst_a\<close> the output alpha
  \<open>src_alpha + dst_a * (255 - src_alpha) / 255\<close> is at least \<open>dst_a\<close>; so whenever the
  compositor returns, for any fragment sequence and any canvas, the canvas has kept its
  size and no pixel's alpha channel is smaller than before.\<close>

theorem alpha_never_decreases:
  "(1 \<le> unat fa \<and> unat fa \<le> 255 \<longrightarrow>
      unat (out_alpha fa dst_a) = unat fa + unat dst_a * (255 - unat fa) div 255
      \<and> unat dst_a \<le> unat (out_alpha fa dst_a))
   \<and> (blend_ass_image pixels cw ch imgs = Inr pixels' \<longrightarrow>
        length pixels' = length pixels
        \<and> (\<forall>i < length pixels. px_a (pixels ! i) \<le> px_a (pixels' ! i)))"
  using out_alpha_unat [of fa dst_a] out_alpha_ge [of fa dst_a]
    blend_ass_image_alpha [of pixels cw ch imgs pixels']
  by (simp add: alpha_le_nth)

text \<open>\<open>src_alpha = 128\<close> over \<open>dst_a = 200\<close> gives 227; and the second of two half
  transparent fragments raises the alpha of the pixel from \<open>0x7F\<close> to \<open>0xBE\<close>.\<close>

theorem alpha_never_decreases_witness:
  "unat (out_alpha 128 200) = 227
   \<and> blend_ass_image [0x7FFF0000] 1 1
     [\<lparr>w = 1, h = 1, stride = 1, bitmap = [255], color = 0x0000FF80, dst_x = 0, dst_y = 0\<rparr>]
     = Inr [0xBE5500AA]
   \<and> px_a ([0x7FFF0000] ! 0) \<le> px_a ([0xBE5500AA] ! 0)"
proof -
  have run: "blend_ass_image [0x7FFF0000] 1 1
     [\<lparr>w = 1, h = 1, stride = 1, bitmap = [255], color = 0x0000FF80, dst_x = 0, dst_y = 0\<rparr>]
     = Inr [0xBE5500AA]"
    by (simp add: blend_ass_image_def blend_image_def blend_row_def blend_col_def
      load_bitmap_def canvas_index_def final_alpha_def blend_pixel_def Let_def
      img_r_def img_g_def img_b_def img_a_def
      px_a_def px_r_def px_g_def px_b_def out_alpha_def out_channel_def pack_argb_def)
  from alpha_never_decreases [of 128 200 "[0x7FFF0000]" 1 1
     "[\<lparr>w = 1, h = 1, stride = 1, bitmap = [255], color = 0x0000FF80, dst_x = 0, dst_y = 0\<rparr>]"
     "[0xBE5500AA]"] run
  show ?thesis by simp
qed

end
